theory Spec2Isabelle
  imports Complex_Main "HOL-Library.Word" "HOL-Library.Monad_Syntax"
begin

unbundle bit_operations_syntax

section \<open>Data model\<close>

text \<open>
  The header \<^verbatim>\<open>canmap.h\<close> with the struct declarations and the build constants is not
  among the sources.  The two structs are taken from their uses in \<^verbatim>\<open>canmap.cpp\<close>: the
  link fields \<^verbatim>\<open>first\<close> and \<^verbatim>\<open>next\<close> are bytes (the free marker is \<^verbatim>\<open>0xff\<close>), the bit
  position and width are the \<^verbatim>\<open>uint8_t\<close> arguments of \<^verbatim>\<open>Add\<close>, the bias is its \<^verbatim>\<open>int8_t\<close>
  argument, the parameter reference is a \<^verbatim>\<open>uint16_t\<close> and the identifier a \<^verbatim>\<open>uint32_t\<close>
  (the layout with \<^verbatim>\<open>CAN_EXT\<close>, which holds the 29-bit identifiers that \<^verbatim>\<open>Add\<close> accepts).
  The type \<open>'f\<close> stands for the C type \<^verbatim>\<open>float\<close>; \<^verbatim>\<open>next\<close> is spelled \<open>nxt\<close>.
\<close>

type_synonym PARAM_NUM = "16 word"

record 'f CANPOS =
  gain :: 'f
  mapParam :: "16 word"
  offset :: "8 word"
  offsetBits :: "8 word"
  numBits :: "8 word"
  nxt :: "8 word"

record CANIDMAP =
  canId :: "32 word"
  first :: "8 word"

definition ITEM_UNSET :: "8 word" where
  "ITEM_UNSET = 0xff"

datatype can_err =
  CAN_ERR_INVALID_ID | CAN_ERR_INVALID_OFS | CAN_ERR_INVALID_LEN
  | CAN_ERR_MAXMESSAGES | CAN_ERR_MAXITEMS

text \<open>
  Everything the two source files use but do not define is a field of the environment:
  the build constants, the arithmetic of \<^verbatim>\<open>float\<close>, the parameter store \<^verbatim>\<open>Param::\<close> (its
  state has type \<open>'ps\<close>), and the checksum unit.
\<close>

record ('f, 'ps) env =
  MAX_MESSAGES :: nat
  MAX_ITEMS :: nat
  MAX_USER_MESSAGES :: nat
  MAX_RECV_CALLBACKS :: nat
  PARAM_LAST :: nat
  flt_of_int :: "int \<Rightarrow> 'f"
  flt_add :: "'f \<Rightarrow> 'f \<Rightarrow> 'f"
  flt_mul :: "'f \<Rightarrow> 'f \<Rightarrow> 'f"
  int_of_flt :: "'f \<Rightarrow> 32 word"
  FP_FROMFLT :: "'f \<Rightarrow> 32 word"
  Param_IsParam :: "16 word \<Rightarrow> bool"
  Param_Set :: "16 word \<Rightarrow> 32 word \<Rightarrow> 'ps \<Rightarrow> int \<times> 'ps"
  Param_SetFloat :: "16 word \<Rightarrow> 'f \<Rightarrow> 'ps \<Rightarrow> 'ps"
  Param_Get :: "16 word \<Rightarrow> 'ps \<Rightarrow> 32 word"
  Param_GetFloat :: "16 word \<Rightarrow> 'ps \<Rightarrow> 'f"
  Param_NumFromId :: "32 word \<Rightarrow> 16 word"
  crc_calculate_block :: "CANIDMAP list \<times> CANIDMAP list \<times> 'f CANPOS list \<Rightarrow> 32 word"

text \<open>
  \<^verbatim>\<open>CanHardware\<close>: the list of identifiers of interest with its fill index, the number of
  registered callbacks, and, for the two pure virtual methods, a log of the frames handed
  to \<^verbatim>\<open>Send\<close> and a count of the calls of \<^verbatim>\<open>ConfigureFilters\<close>.
\<close>

record CanHardware =
  userIds :: "32 word list"
  nextUserMessageIndex :: nat
  nextCallbackIndex :: nat
  sent :: "(32 word \<times> 32 word \<times> 32 word) list"
  filterConfigs :: nat

record ('f, 'ps) CanMap =
  canHardware :: CanHardware
  nodeId :: "8 word"
  canSendMap :: "CANIDMAP list"
  canRecvMap :: "CANIDMAP list"
  canPosMap :: "'f CANPOS list"
  isSaving :: bool
  params :: 'ps

section \<open>The two iteration macros\<close>

text \<open>
  \<^verbatim>\<open>forEachCanMap(c,m)\<close> walks the table from its start and stops at the end of the array
  or at the first entry whose head link is \<^verbatim>\<open>MAX_ITEMS\<close>.  For a body that does not write
  head links ahead of the cursor, the entries visited are these, with their indices.
\<close>

definition forEachCanMap :: "('f, 'ps) env \<Rightarrow> CANIDMAP list \<Rightarrow> (nat \<times> CANIDMAP) list" where
  "forEachCanMap env m =
     takeWhile (\<lambda>(i, c). unat (first c) \<noteq> MAX_ITEMS env)
       (enumerate 0 (take (MAX_MESSAGES env) m))"

text \<open>
  \<^verbatim>\<open>forEachPosMap(c,m)\<close> starts at pool slot \<^verbatim>\<open>m->first\<close> and follows \<^verbatim>\<open>next\<close> until it
  stands on a slot whose \<^verbatim>\<open>next\<close> is \<^verbatim>\<open>ITEM_UNSET\<close>.  A chain with a cycle never ends and a
  link that leaves the pool is an out-of-bounds read: both are \<open>None\<close>.  For a body
  that writes no link, the slots visited are these.
\<close>

partial_function (option) forEachPosMap :: "'f CANPOS list \<Rightarrow> nat \<Rightarrow> nat list option" where
  [code]: "forEachPosMap pool c =
     (if length pool \<le> c then None
      else if nxt (pool ! c) = ITEM_UNSET then Some []
      else Option.bind (forEachPosMap pool (unat (nxt (pool ! c)))) (\<lambda>cs. Some (c # cs)))"

section \<open>Table operations\<close>

definition ClearMap :: "('f, 'ps) env \<Rightarrow> CANIDMAP list \<times> 'f CANPOS list
    \<Rightarrow> CANIDMAP list \<times> 'f CANPOS list" where
  "ClearMap env st =
     (case st of (canMap, pool) \<Rightarrow>
        (map (\<lambda>c. c\<lparr>first := of_nat (MAX_ITEMS env)\<rparr>) (take (MAX_MESSAGES env) canMap)
           @ drop (MAX_MESSAGES env) canMap,
         map (\<lambda>p. p\<lparr>nxt := ITEM_UNSET\<rparr>) (take (MAX_ITEMS env + 1) pool)
           @ drop (MAX_ITEMS env + 1) pool))"

definition FindById :: "('f, 'ps) env \<Rightarrow> CANIDMAP list \<Rightarrow> 32 word \<Rightarrow> nat option" where
  "FindById env canMap cid =
     map_option fst (find (\<lambda>(i, c). canId c = cid) (forEachCanMap env canMap))"

text \<open>The scan of \<^verbatim>\<open>Add\<close> for the first table entry with head link \<^verbatim>\<open>MAX_ITEMS\<close>.\<close>

definition findFreeMap :: "('f, 'ps) env \<Rightarrow> CANIDMAP list \<Rightarrow> nat option" where
  "findFreeMap env canMap =
     map_option fst (find (\<lambda>(i, c). unat (first c) = MAX_ITEMS env)
       (enumerate 0 (take (MAX_MESSAGES env) canMap)))"

text \<open>The scan of \<^verbatim>\<open>Add\<close> for the first pool slot marked free; \<^verbatim>\<open>MAX_ITEMS\<close> if there is none.\<close>

definition findFreeIndex :: "('f, 'ps) env \<Rightarrow> 'f CANPOS list \<Rightarrow> nat" where
  "findFreeIndex env pool =
     length (takeWhile (\<lambda>p. nxt p \<noteq> ITEM_UNSET) (take (MAX_ITEMS env) pool))"

text \<open>
  The walk of \<^verbatim>\<open>Add\<close> to the tail of a chain: from \<^verbatim>\<open>existingMap->first\<close> along \<^verbatim>\<open>next\<close>
  until the index is \<^verbatim>\<open>MAX_ITEMS\<close>, remembering the last slot passed.
\<close>

partial_function (option) findPreceding ::
    "nat \<Rightarrow> 'f CANPOS list \<Rightarrow> nat \<Rightarrow> nat option \<Rightarrow> nat option option" where
  [code]: "findPreceding mi pool precedingIndex precedingItem =
     (if precedingIndex = mi then Some precedingItem
      else if length pool \<le> precedingIndex then None
      else findPreceding mi pool (unat (nxt (pool ! precedingIndex))) (Some precedingIndex))"

definition Add :: "('f, 'ps) env \<Rightarrow> CANIDMAP list \<times> 'f CANPOS list \<Rightarrow> PARAM_NUM \<Rightarrow> 32 word
    \<Rightarrow> 8 word \<Rightarrow> 8 word \<Rightarrow> 'f \<Rightarrow> 8 word
    \<Rightarrow> ((can_err + nat) \<times> CANIDMAP list \<times> 'f CANPOS list) option" where
  "Add env st param cid offsBits len g offs =
     (case st of (canMap, pool) \<Rightarrow>
      if cid > 0x1fffffff then Some (Inl CAN_ERR_INVALID_ID, canMap, pool)
      else if offsBits > 63 then Some (Inl CAN_ERR_INVALID_OFS, canMap, pool)
      else if len > 32 then Some (Inl CAN_ERR_INVALID_LEN, canMap, pool)
      else
        (case (case FindById env canMap cid of
                 Some i \<Rightarrow> Some (i, canMap)
               | None \<Rightarrow>
                   (case findFreeMap env canMap of
                      None \<Rightarrow> None
                    | Some i \<Rightarrow> Some (i, canMap[i := (canMap ! i)\<lparr>canId := cid\<rparr>]))) of
           None \<Rightarrow> Some (Inl CAN_ERR_MAXMESSAGES, canMap, pool)
         | Some (existingMap, canMap1) \<Rightarrow>
             let freeIndex = findFreeIndex env pool in
             if freeIndex = MAX_ITEMS env then Some (Inl CAN_ERR_MAXITEMS, canMap1, pool)
             else
               (case findPreceding (MAX_ITEMS env) pool
                       (unat (first (canMap1 ! existingMap))) None of
                  None \<Rightarrow> None
                | Some precedingItem \<Rightarrow>
                    let pool1 = pool[freeIndex := \<lparr>gain = g, mapParam = param, offset = offs,
                                  offsetBits = offsBits, numBits = len,
                                  nxt = of_nat (MAX_ITEMS env)\<rparr>];
                        st2 = (case precedingItem of
                                 None \<Rightarrow>
                                   (canMap1[existingMap :=
                                      (canMap1 ! existingMap)\<lparr>first := of_nat freeIndex\<rparr>], pool1)
                               | Some p \<Rightarrow>
                                   (canMap1, pool1[p := (pool1 ! p)\<lparr>nxt := of_nat freeIndex\<rparr>]))
                    in Some (Inr (length (forEachCanMap env (fst st2))), st2))))"

text \<open>
  The inner loop of \<^verbatim>\<open>RemoveFromMap\<close> writes links while it walks, so it is a loop of its
  own over the table and the pool: \<open>curMap\<close> is the index of the entry, \<open>lastPosMap\<close>
  the slot visited before (\<open>None\<close> for the null pointer), \<open>curPos\<close> the slot visited.
\<close>

partial_function (option) RemoveFromChain ::
    "PARAM_NUM \<Rightarrow> nat \<Rightarrow> nat option \<Rightarrow> nat \<Rightarrow> CANIDMAP list \<times> 'f CANPOS list
      \<Rightarrow> (CANIDMAP list \<times> 'f CANPOS list) option" where
  [code]: "RemoveFromChain param curMap lastPosMap curPos st =
     (case st of (canMap, pool) \<Rightarrow>
        if length pool \<le> curPos then None
        else if nxt (pool ! curPos) = ITEM_UNSET then Some st
        else
          let st' =
            (if mapParam (pool ! curPos) = param then
               (case lastPosMap of
                  Some l \<Rightarrow> (canMap, pool[l := (pool ! l)\<lparr>nxt := nxt (pool ! curPos)\<rparr>])
                | None \<Rightarrow>
                    (canMap[curMap := (canMap ! curMap)\<lparr>first := nxt (pool ! curPos)\<rparr>], pool))
             else st)
          in RemoveFromChain param curMap (Some curPos) (unat (nxt (snd st' ! curPos))) st')"

function RemoveFromMaps :: "('f, 'ps) env \<Rightarrow> PARAM_NUM \<Rightarrow> nat
    \<Rightarrow> CANIDMAP list \<times> 'f CANPOS list \<Rightarrow> (CANIDMAP list \<times> 'f CANPOS list) option" where
  "RemoveFromMaps env param curMap st =
     (if curMap < MAX_MESSAGES env \<and> unat (first (fst st ! curMap)) \<noteq> MAX_ITEMS env then
        (case RemoveFromChain param curMap None (unat (first (fst st ! curMap))) st of
           None \<Rightarrow> None
         | Some st' \<Rightarrow> RemoveFromMaps env param (curMap + 1) st')
      else Some st)"
  by pat_completeness auto
termination
  by (relation "measure (\<lambda>(env, param, curMap, st). MAX_MESSAGES env - curMap)") auto

declare RemoveFromMaps.simps [simp del]

text \<open>The counter \<^verbatim>\<open>removed\<close> is set to 0 at the top and returned; no statement writes it.\<close>

definition RemoveFromMap :: "('f, 'ps) env \<Rightarrow> CANIDMAP list \<times> 'f CANPOS list \<Rightarrow> PARAM_NUM
    \<Rightarrow> (int \<times> CANIDMAP list \<times> 'f CANPOS list) option" where
  "RemoveFromMap env st param =
     (let removed = 0 in
      map_option (\<lambda>st'. (removed, st')) (RemoveFromMaps env param 0 st))"

definition Remove :: "('f, 'ps) env \<Rightarrow> ('f, 'ps) CanMap \<Rightarrow> PARAM_NUM
    \<Rightarrow> (int \<times> ('f, 'ps) CanMap) option" where
  "Remove env s param =
     (case RemoveFromMap env (canSendMap s, canPosMap s) param of
        None \<Rightarrow> None
      | Some (removed1, sendMap', pool1) \<Rightarrow>
          (case RemoveFromMap env (canRecvMap s, pool1) param of
             None \<Rightarrow> None
           | Some (removed2, recvMap', pool2) \<Rightarrow>
               Some (removed1 + removed2,
                 s\<lparr>canSendMap := sendMap', canRecvMap := recvMap', canPosMap := pool2\<rparr>)))"

section \<open>Lookup and export\<close>

text \<open>
  The inner loop of \<^verbatim>\<open>FindMap\<close> returns from inside the chain at the first slot bound to
  the parameter: \<open>Some (Some slot)\<close>; \<open>Some None\<close> when the chain ends without one.
\<close>

partial_function (option) FindInChain ::
    "'f CANPOS list \<Rightarrow> PARAM_NUM \<Rightarrow> nat \<Rightarrow> nat option option" where
  [code]: "FindInChain pool param curPos =
     (if length pool \<le> curPos then None
      else if nxt (pool ! curPos) = ITEM_UNSET then Some None
      else if mapParam (pool ! curPos) = param then Some (Some curPos)
      else FindInChain pool param (unat (nxt (pool ! curPos))))"

fun FindMapIn :: "'f CANPOS list \<Rightarrow> PARAM_NUM \<Rightarrow> (nat \<times> CANIDMAP) list
    \<Rightarrow> (32 word \<times> nat) option option" where
  "FindMapIn pool param [] = Some None"
| "FindMapIn pool param (ic # rest) =
     (case FindInChain pool param (unat (first (snd ic))) of
        None \<Rightarrow> None
      | Some (Some curPos) \<Rightarrow> Some (Some (canId (snd ic), curPos))
      | Some None \<Rightarrow> FindMapIn pool param rest)"

text \<open>
  \<^verbatim>\<open>FindMap\<close>: \<open>Some (Some (canId, offset, length, gain, rx))\<close> stands for the result
  \<^verbatim>\<open>true\<close> with the five output arguments, \<open>Some None\<close> for \<^verbatim>\<open>false\<close>.
\<close>

definition FindMap :: "('f, 'ps) env \<Rightarrow> ('f, 'ps) CanMap \<Rightarrow> PARAM_NUM
    \<Rightarrow> (32 word \<times> 8 word \<times> 8 word \<times> 'f \<times> bool) option option" where
  "FindMap env s param =
     (let pool = canPosMap s;
          out = (\<lambda>cid curPos rx. Some (Some (cid, offsetBits (pool ! curPos),
                   numBits (pool ! curPos), gain (pool ! curPos), rx)))
      in case FindMapIn pool param (forEachCanMap env (canSendMap s)) of
           None \<Rightarrow> None
         | Some (Some (cid, curPos)) \<Rightarrow> out cid curPos False
         | Some None \<Rightarrow>
             (case FindMapIn pool param (forEachCanMap env (canRecvMap s)) of
                None \<Rightarrow> None
              | Some (Some (cid, curPos)) \<Rightarrow> out cid curPos True
              | Some None \<Rightarrow> Some None))"

text \<open>\<^verbatim>\<open>IterateCanMap\<close>: the list of the argument tuples the callback is called with.\<close>

fun IterateIn :: "'f CANPOS list \<Rightarrow> bool \<Rightarrow> (nat \<times> CANIDMAP) list
    \<Rightarrow> (PARAM_NUM \<times> 32 word \<times> 8 word \<times> 8 word \<times> 'f \<times> bool) list option" where
  "IterateIn pool rx [] = Some []"
| "IterateIn pool rx (ic # rest) =
     (case forEachPosMap pool (unat (first (snd ic))) of
        None \<Rightarrow> None
      | Some slots \<Rightarrow>
          (case IterateIn pool rx rest of
             None \<Rightarrow> None
           | Some calls \<Rightarrow>
               Some (map (\<lambda>p. (mapParam (pool ! p), canId (snd ic), offsetBits (pool ! p),
                          numBits (pool ! p), gain (pool ! p), rx)) slots @ calls)))"

definition IterateCanMap :: "('f, 'ps) env \<Rightarrow> ('f, 'ps) CanMap
    \<Rightarrow> (PARAM_NUM \<times> 32 word \<times> 8 word \<times> 8 word \<times> 'f \<times> bool) list option" where
  "IterateCanMap env s =
     (case IterateIn (canPosMap s) False (forEachCanMap env (canSendMap s)) of
        None \<Rightarrow> None
      | Some calls1 \<Rightarrow>
          (case IterateIn (canPosMap s) True (forEachCanMap env (canRecvMap s)) of
             None \<Rightarrow> None
           | Some calls2 \<Rightarrow> Some (calls1 @ calls2)))"

section \<open>The hardware layer\<close>

definition Send :: "CanHardware \<Rightarrow> 32 word \<Rightarrow> 32 word \<times> 32 word \<Rightarrow> CanHardware" where
  "Send hw cid data = hw\<lparr>sent := sent hw @ [(cid, fst data, snd data)]\<rparr>"

definition ConfigureFilters :: "CanHardware \<Rightarrow> CanHardware" where
  "ConfigureFilters hw = hw\<lparr>filterConfigs := filterConfigs hw + 1\<rparr>"

definition AddReceiveCallback :: "('f, 'ps) env \<Rightarrow> CanHardware \<Rightarrow> bool \<times> CanHardware" where
  "AddReceiveCallback env hw =
     (if nextCallbackIndex hw < MAX_RECV_CALLBACKS env
      then (True, hw\<lparr>nextCallbackIndex := nextCallbackIndex hw + 1\<rparr>)
      else (False, hw))"

definition RegisterUserMessage :: "('f, 'ps) env \<Rightarrow> CanHardware \<Rightarrow> 32 word
    \<Rightarrow> bool \<times> CanHardware" where
  "RegisterUserMessage env hw cid =
     (if nextUserMessageIndex hw < MAX_USER_MESSAGES env then
        if cid \<in> set (take (nextUserMessageIndex hw) (userIds hw)) then (False, hw)
        else (True, ConfigureFilters
               (hw\<lparr>userIds := (userIds hw)[nextUserMessageIndex hw := cid],
                   nextUserMessageIndex := nextUserMessageIndex hw + 1\<rparr>))
      else (False, hw))"

section \<open>Adding bindings, clearing\<close>

definition AddSend :: "('f, 'ps) env \<Rightarrow> ('f, 'ps) CanMap \<Rightarrow> PARAM_NUM \<Rightarrow> 32 word
    \<Rightarrow> 8 word \<Rightarrow> 8 word \<Rightarrow> 'f \<Rightarrow> 8 word \<Rightarrow> ((can_err + nat) \<times> ('f, 'ps) CanMap) option" where
  "AddSend env s param cid offsBits len g offs =
     (case Add env (canSendMap s, canPosMap s) param cid offsBits len g offs of
        None \<Rightarrow> None
      | Some (res, canMap', pool') \<Rightarrow>
          Some (res, s\<lparr>canSendMap := canMap', canPosMap := pool'\<rparr>))"

definition AddRecv :: "('f, 'ps) env \<Rightarrow> ('f, 'ps) CanMap \<Rightarrow> PARAM_NUM \<Rightarrow> 32 word
    \<Rightarrow> 8 word \<Rightarrow> 8 word \<Rightarrow> 'f \<Rightarrow> 8 word \<Rightarrow> ((can_err + nat) \<times> ('f, 'ps) CanMap) option" where
  "AddRecv env s param cid offsBits len g offs =
     (case Add env (canRecvMap s, canPosMap s) param cid offsBits len g offs of
        None \<Rightarrow> None
      | Some (res, canMap', pool') \<Rightarrow>
          Some (res, s\<lparr>canRecvMap := canMap', canPosMap := pool',
                      canHardware := snd (RegisterUserMessage env (canHardware s) cid)\<rparr>))"

definition HandleClear :: "('f, 'ps) env \<Rightarrow> ('f, 'ps) CanMap \<Rightarrow> ('f, 'ps) CanMap" where
  "HandleClear env s =
     s\<lparr>canHardware :=
         foldl (\<lambda>hw ic. snd (RegisterUserMessage env hw (canId (snd ic))))
           (canHardware s) (forEachCanMap env (canRecvMap s))\<rparr>"

section \<open>Bit codec: the send sweep and frame reception\<close>

text \<open>
  Machine arithmetic: \<^verbatim>\<open>int\<close> and \<^verbatim>\<open>uint32_t\<close> are 32-bit words that wrap; a left shift
  by 32 or more gives 0 and a right shift by 32 or more gives 0 (the value the target's
  register shifts produce where C leaves the result open), so \<^verbatim>\<open>(1 << 32) - 1\<close> is the
  word of 32 ones.  The conversion of a \<^verbatim>\<open>float\<close> to \<^verbatim>\<open>int\<close> is \<open>int_of_flt\<close>.
\<close>

text \<open>
  The inner loop of \<^verbatim>\<open>SendAll\<close> over one chain, with the two data words as accumulator.
  \<open>Some None\<close> is the \<^verbatim>\<open>return\<close> taken when the busy flag is set.
\<close>

partial_function (option) SendChain :: "('f, 'ps) env \<Rightarrow> 'ps \<Rightarrow> bool \<Rightarrow> 'f CANPOS list
    \<Rightarrow> nat \<Rightarrow> 32 word \<times> 32 word \<Rightarrow> (32 word \<times> 32 word) option option" where
  [code]: "SendChain env ps saving pool curPos data =
     (if length pool \<le> curPos then None
      else if nxt (pool ! curPos) = ITEM_UNSET then Some (Some data)
      else if saving then Some None
      else
        let p = pool ! curPos;
            val = Param_GetFloat env (mapParam p) ps;
            val = flt_mul env val (gain p);
            val = flt_add env val (flt_of_int env (sint (offset p)));
            ival = int_of_flt env val;
            ival = ival AND (push_bit (unat (numBits p)) 1 - 1);
            data' = (if offsetBits p > 31
                     then (fst data, snd data OR push_bit (unat (offsetBits p) - 32) ival)
                     else (fst data OR push_bit (unat (offsetBits p)) ival, snd data))
        in SendChain env ps saving pool (unat (nxt (pool ! curPos))) data')"

fun SendAllIn :: "('f, 'ps) env \<Rightarrow> 'ps \<Rightarrow> bool \<Rightarrow> 'f CANPOS list \<Rightarrow> CanHardware
    \<Rightarrow> (nat \<times> CANIDMAP) list \<Rightarrow> CanHardware option" where
  "SendAllIn env ps saving pool hw [] = Some hw"
| "SendAllIn env ps saving pool hw (ic # rest) =
     (case SendChain env ps saving pool (unat (first (snd ic))) (0, 0) of
        None \<Rightarrow> None
      | Some None \<Rightarrow> Some hw
      | Some (Some data) \<Rightarrow>
          SendAllIn env ps saving pool (Send hw (canId (snd ic)) data) rest)"

definition SendAll :: "('f, 'ps) env \<Rightarrow> ('f, 'ps) CanMap \<Rightarrow> ('f, 'ps) CanMap option" where
  "SendAll env s =
     map_option (\<lambda>hw. s\<lparr>canHardware := hw\<rparr>)
       (SendAllIn env (params s) (isSaving s) (canPosMap s) (canHardware s)
          (forEachCanMap env (canSendMap s)))"

text \<open>The loop of \<^verbatim>\<open>HandleRx\<close> over the chain of the entry found, writing the parameters.\<close>

partial_function (option) RecvChain :: "('f, 'ps) env \<Rightarrow> 'f CANPOS list
    \<Rightarrow> 32 word \<times> 32 word \<Rightarrow> nat \<Rightarrow> 'ps \<Rightarrow> 'ps option" where
  [code]: "RecvChain env pool data curPos ps =
     (if length pool \<le> curPos then None
      else if nxt (pool ! curPos) = ITEM_UNSET then Some ps
      else
        let p = pool ! curPos;
            raw = (if offsetBits p > 31
                   then drop_bit (unat (offsetBits p) - 32) (snd data)
                          AND (push_bit (unat (numBits p)) 1 - 1)
                   else drop_bit (unat (offsetBits p)) (fst data)
                          AND (push_bit (unat (numBits p)) 1 - 1));
            val = flt_of_int env (uint raw);
            val = flt_add env val (flt_of_int env (sint (offset p)));
            val = flt_mul env val (gain p);
            ps' = (if Param_IsParam env (mapParam p)
                   then snd (Param_Set env (mapParam p) (FP_FROMFLT env val) ps)
                   else Param_SetFloat env (mapParam p) val ps)
        in RecvChain env pool data (unat (nxt (pool ! curPos))) ps')"

section \<open>Remote configuration (SDO)\<close>

definition SDO_WRITE :: "8 word" where "SDO_WRITE = 0x40"
definition SDO_READ :: "8 word" where "SDO_READ = 0x22"
definition SDO_ABORT :: "8 word" where "SDO_ABORT = 0x80"
definition SDO_WRITE_REPLY :: "8 word" where "SDO_WRITE_REPLY = 0x23"
definition SDO_READ_REPLY :: "8 word" where "SDO_READ_REPLY = 0x43"
definition SDO_ERR_INVIDX :: "32 word" where "SDO_ERR_INVIDX = 0x06020000"
definition SDO_ERR_RANGE :: "32 word" where "SDO_ERR_RANGE = 0x06090030"

text \<open>
  The packed struct \<^verbatim>\<open>CAN_SDO\<close> laid over the two data words of the little-endian
  target: the command is byte 0 of the first word, the index its bytes 1 and 2, the
  sub-index its byte 3, and the data field is the second word.
\<close>

definition sdo_cmd :: "32 word \<times> 32 word \<Rightarrow> 8 word" where
  "sdo_cmd data = ucast (fst data)"

definition sdo_index :: "32 word \<times> 32 word \<Rightarrow> 16 word" where
  "sdo_index data = ucast (drop_bit 8 (fst data))"

definition sdo_subIndex :: "32 word \<times> 32 word \<Rightarrow> 8 word" where
  "sdo_subIndex data = ucast (drop_bit 24 (fst data))"

definition sdo_data :: "32 word \<times> 32 word \<Rightarrow> 32 word" where
  "sdo_data data = snd data"

definition set_sdo_cmd :: "8 word \<Rightarrow> 32 word \<times> 32 word \<Rightarrow> 32 word \<times> 32 word" where
  "set_sdo_cmd c data = ((fst data AND NOT 0xff) OR ucast c, snd data)"

definition set_sdo_data :: "32 word \<Rightarrow> 32 word \<times> 32 word \<Rightarrow> 32 word \<times> 32 word" where
  "set_sdo_data d data = (fst data, d)"

text \<open>
  \<^verbatim>\<open>ProcessSDO\<close>, in two parts: the branches, which rewrite the request buffer in place
  (and may write a parameter or add a binding), and the one call of \<^verbatim>\<open>Send\<close> that ends
  the function.  A result code of \<^verbatim>\<open>Add\<close> is non-negative exactly when it is a count
  (\<open>Inr\<close>).
\<close>

definition ProcessSDO_branches :: "('f, 'ps) env \<Rightarrow> ('f, 'ps) CanMap \<Rightarrow> 32 word \<times> 32 word
    \<Rightarrow> (('f, 'ps) CanMap \<times> 32 word \<times> 32 word) option" where
  "ProcessSDO_branches env s data =
     (if sdo_index data \<ge> 0x2000 \<and> sdo_index data \<le> 0x2001
         \<and> unat (sdo_subIndex data) < PARAM_LAST env then
        let paramIdx = (if sdo_index data = 0x2001
                        then Param_NumFromId env (ucast (sdo_subIndex data))
                        else ucast (sdo_subIndex data))
        in
        if sdo_cmd data = SDO_WRITE then
          (case Param_Set env paramIdx (sdo_data data) (params s) of
             (res, ps') \<Rightarrow>
               if res = 0 then Some (s\<lparr>params := ps'\<rparr>, set_sdo_cmd SDO_WRITE_REPLY data)
               else Some (s\<lparr>params := ps'\<rparr>,
                      set_sdo_data SDO_ERR_RANGE (set_sdo_cmd SDO_ABORT data)))
        else if sdo_cmd data = SDO_READ then
          Some (s, set_sdo_cmd SDO_READ_REPLY
                     (set_sdo_data (Param_Get env paramIdx (params s)) data))
        else Some (s, data)
      else if sdo_index data \<ge> 0x3000 \<and> sdo_index data < 0x4800
              \<and> unat (sdo_subIndex data) < PARAM_LAST env then
        if sdo_cmd data = SDO_WRITE then
          let offs = sdo_data data AND 0xff;
              len = drop_bit 8 (sdo_data data) AND 0xff;
              g = drop_bit 16 (sdo_data data)
          in
          (case (if sdo_index data AND 0x4000 = 0x4000
                 then AddRecv env s (ucast (sdo_subIndex data)) (ucast (sdo_index data AND 0x7ff))
                        (ucast offs) (ucast len) (flt_of_int env (sint g)) 0
                 else AddSend env s (ucast (sdo_subIndex data)) (ucast (sdo_index data AND 0x7ff))
                        (ucast offs) (ucast len) (flt_of_int env (sint g)) 0) of
             None \<Rightarrow> None
           | Some (Inr count, s') \<Rightarrow> Some (s', set_sdo_cmd SDO_WRITE_REPLY data)
           | Some (Inl err, s') \<Rightarrow>
               Some (s', set_sdo_data SDO_ERR_RANGE (set_sdo_cmd SDO_ABORT data)))
        else Some (s, data)
      else Some (s, set_sdo_data SDO_ERR_INVIDX (set_sdo_cmd SDO_ABORT data)))"

definition ProcessSDO :: "('f, 'ps) env \<Rightarrow> ('f, 'ps) CanMap \<Rightarrow> 32 word \<times> 32 word
    \<Rightarrow> ('f, 'ps) CanMap option" where
  "ProcessSDO env s data =
     map_option
       (\<lambda>(s', data'). s'\<lparr>canHardware :=
           Send (canHardware s') (0x580 + ucast (nodeId s')) data'\<rparr>)
       (ProcessSDO_branches env s data)"

definition HandleRx :: "('f, 'ps) env \<Rightarrow> ('f, 'ps) CanMap \<Rightarrow> 32 word \<Rightarrow> 32 word \<times> 32 word
    \<Rightarrow> (bool \<times> ('f, 'ps) CanMap) option" where
  "HandleRx env s cid data =
     (if cid = 0x600 + ucast (nodeId s) then
        map_option (\<lambda>s'. (True, s')) (ProcessSDO env s data)
      else if isSaving s then Some (False, s)
      else
        (case FindById env (canRecvMap s) cid of
           Some recvMap \<Rightarrow>
             map_option (\<lambda>ps'. (True, s\<lparr>params := ps'\<rparr>))
               (RecvChain env (canPosMap s) data
                  (unat (first (canRecvMap s ! recvMap))) (params s))
         | None \<Rightarrow> Some (False, s)))"

section \<open>Loading the stored image, construction\<close>

text \<open>
  The stored image: the send table, the receive table, the first \<^verbatim>\<open>MAX_ITEMS\<close> pool
  slots (with persistent identifiers in \<^verbatim>\<open>mapParam\<close>) and the trailing checksum word.
  The checksum unit is the function \<open>crc_calculate_block\<close> of the three regions.
\<close>

record 'f flash_image =
  flashSendMap :: "CANIDMAP list"
  flashRecvMap :: "CANIDMAP list"
  flashPosMap :: "'f CANPOS list"
  flashCrc :: "32 word"

text \<open>
  The body of \<^verbatim>\<open>ReplaceParamUidByEnum\<close> writes \<^verbatim>\<open>mapParam\<close> only, so on each chain it
  visits the slots of \<open>forEachPosMap\<close>, in that order.
\<close>

fun ReplaceUidIn :: "('f, 'ps) env \<Rightarrow> (nat \<times> CANIDMAP) list \<Rightarrow> 'f CANPOS list
    \<Rightarrow> 'f CANPOS list option" where
  "ReplaceUidIn env [] pool = Some pool"
| "ReplaceUidIn env (ic # rest) pool =
     (case forEachPosMap pool (unat (first (snd ic))) of
        None \<Rightarrow> None
      | Some slots \<Rightarrow>
          ReplaceUidIn env rest
            (foldl (\<lambda>pl p. pl[p := (pl ! p)\<lparr>mapParam :=
                       Param_NumFromId env (ucast (mapParam (pl ! p)))\<rparr>]) pool slots))"

definition ReplaceParamUidByEnum :: "('f, 'ps) env \<Rightarrow> CANIDMAP list \<Rightarrow> 'f CANPOS list
    \<Rightarrow> 'f CANPOS list option" where
  "ReplaceParamUidByEnum env canMap pool = ReplaceUidIn env (forEachCanMap env canMap) pool"

definition LoadFromFlash :: "('f, 'ps) env \<Rightarrow> 'f flash_image \<Rightarrow> ('f, 'ps) CanMap
    \<Rightarrow> (int \<times> ('f, 'ps) CanMap) option" where
  "LoadFromFlash env flash s =
     (let storedCrc = flashCrc flash;
          crc = crc_calculate_block env (flashSendMap flash, flashRecvMap flash, flashPosMap flash)
      in
      if storedCrc = crc then
        let sendMap' = take (MAX_MESSAGES env) (flashSendMap flash)
                         @ drop (MAX_MESSAGES env) (canSendMap s);
            recvMap' = take (MAX_MESSAGES env) (flashRecvMap flash)
                         @ drop (MAX_MESSAGES env) (canRecvMap s);
            pool' = take (MAX_ITEMS env) (flashPosMap flash)
                         @ drop (MAX_ITEMS env) (canPosMap s)
        in
        (case ReplaceParamUidByEnum env sendMap' pool' of
           None \<Rightarrow> None
         | Some pool1 \<Rightarrow>
             (case ReplaceParamUidByEnum env recvMap' pool1 of
                None \<Rightarrow> None
              | Some pool2 \<Rightarrow>
                  Some (1, s\<lparr>canSendMap := sendMap', canRecvMap := recvMap',
                              canPosMap := pool2\<rparr>)))
      else Some (0, s))"

text \<open>
  The constructor \<^verbatim>\<open>CanMap::CanMap\<close>.  Its argument \<open>raw\<close> is the object before the
  constructor body runs: the three arrays have their sizes and arbitrary contents.
\<close>

definition CanMap_CanMap :: "('f, 'ps) env \<Rightarrow> 'f flash_image \<Rightarrow> ('f, 'ps) CanMap
    \<Rightarrow> ('f, 'ps) CanMap option" where
  "CanMap_CanMap env flash raw =
     (let s0 = raw\<lparr>canHardware := snd (AddReceiveCallback env (canHardware raw)), nodeId := 1\<rparr>;
          st1 = ClearMap env (canSendMap s0, canPosMap s0);
          st2 = ClearMap env (canRecvMap s0, snd st1);
          s1 = s0\<lparr>canSendMap := fst st1, canRecvMap := fst st2, canPosMap := snd st2\<rparr>
      in map_option (\<lambda>rs. HandleClear env (snd rs)) (LoadFromFlash env flash s1))"

section \<open>A concrete configuration for evaluation\<close>

text \<open>
  Modelled from the spec: the Parameter Store (\<^verbatim>\<open>Param::\<close>, not among the sources) is a
  keyed value store with get and set in a fixed-point and a floating representation.
  Here it is a list of the writes made, newest first; a parameter never written reads 0;
  a fixed-point value has 5 fraction bits; \<open>isp\<close> tells which parameters take the
  fixed-point path and \<open>ok\<close> which fixed-point writes the store accepts.  A \<^verbatim>\<open>float\<close> is a
  rational number and its arithmetic is exact, which is what the machine computes on the
  small integers used below; the conversion to \<^verbatim>\<open>int\<close> truncates towards zero.
  The limits are 10 messages per direction (as the comment of \<^verbatim>\<open>AddSend\<close> says) and a
  pool of 50 bindings.
\<close>

definition store_get :: "(PARAM_NUM \<times> rat) list \<Rightarrow> PARAM_NUM \<Rightarrow> rat" where
  "store_get ps p = (case map_of ps p of None \<Rightarrow> 0 | Some v \<Rightarrow> v)"

definition trunc_rat :: "rat \<Rightarrow> int" where
  "trunc_rat r = (if r < 0 then \<lceil>r\<rceil> else \<lfloor>r\<rfloor>)"

definition demo_env :: "(PARAM_NUM \<Rightarrow> bool) \<Rightarrow> (PARAM_NUM \<Rightarrow> 32 word \<Rightarrow> bool)
    \<Rightarrow> (rat, (PARAM_NUM \<times> rat) list) env" where
  "demo_env isp ok =
     \<lparr>MAX_MESSAGES = 10, MAX_ITEMS = 50, MAX_USER_MESSAGES = 10, MAX_RECV_CALLBACKS = 5,
      PARAM_LAST = 100,
      flt_of_int = of_int, flt_add = (+), flt_mul = (*),
      int_of_flt = (\<lambda>r. word_of_int (trunc_rat r)),
      FP_FROMFLT = (\<lambda>r. word_of_int (trunc_rat (r * 32))),
      Param_IsParam = isp,
      Param_Set = (\<lambda>p v ps. if ok p v then (0, (p, of_int (sint v) / 32) # ps) else (-1, ps)),
      Param_SetFloat = (\<lambda>p v ps. (p, v) # ps),
      Param_Get = (\<lambda>p ps. word_of_int (trunc_rat (store_get ps p * 32))),
      Param_GetFloat = (\<lambda>p ps. store_get ps p),
      Param_NumFromId = ucast,
      crc_calculate_block = (\<lambda>regions. 0)\<rparr>"

definition raw_CanMap :: "(rat, (PARAM_NUM \<times> rat) list) CanMap" where
  "raw_CanMap =
     \<lparr>canHardware = \<lparr>userIds = replicate 10 0, nextUserMessageIndex = 0,
         nextCallbackIndex = 0, sent = [], filterConfigs = 0\<rparr>,
      nodeId = 0,
      canSendMap = replicate 10 \<lparr>canId = 0, first = 0\<rparr>,
      canRecvMap = replicate 10 \<lparr>canId = 0, first = 0\<rparr>,
      canPosMap = replicate 51 \<lparr>gain = 0, mapParam = 0, offset = 0, offsetBits = 0,
                    numBits = 0, nxt = 0\<rparr>,
      isSaving = False,
      params = []\<rparr>"

definition blank_flash :: "rat flash_image" where
  "blank_flash =
     \<lparr>flashSendMap = replicate 10 \<lparr>canId = 0xffffffff, first = 0xff\<rparr>,
      flashRecvMap = replicate 10 \<lparr>canId = 0xffffffff, first = 0xff\<rparr>,
      flashPosMap = replicate 50 \<lparr>gain = 0, mapParam = 0xffff, offset = 0xff,
                      offsetBits = 0xff, numBits = 0xff, nxt = 0xff\<rparr>,
      flashCrc = 0xffffffff\<rparr>"

definition demo :: "(rat, (PARAM_NUM \<times> rat) list) env" where
  "demo = demo_env (\<lambda>p. False) (\<lambda>p v. True)"

text \<open>Tables of the concrete configuration: those of a fresh object,\<close>

definition start_tables :: "CANIDMAP list \<times> rat CANPOS list" where
  "start_tables =
     (replicate 10 \<lparr>canId = 0, first = 50\<rparr>,
      replicate 51 \<lparr>gain = 0, mapParam = 0, offset = 0, offsetBits = 0, numBits = 0,
        nxt = 0xff\<rparr>)"

text \<open>a table with ten identifiers, each with one binding,\<close>

definition full_table :: "CANIDMAP list \<times> rat CANPOS list" where
  "full_table =
     (map (\<lambda>i. \<lparr>canId = 0x100 + of_nat i, first = of_nat i\<rparr>) [0..<10],
      map (\<lambda>i. \<lparr>gain = 1, mapParam = of_nat i, offset = 0, offsetBits = 0, numBits = 8,
        nxt = (if i < 10 then 50 else 0xff)\<rparr>) [0..<51])"

text \<open>one identifier whose chain runs through all fifty slots of the pool,\<close>

definition full_pool :: "CANIDMAP list \<times> rat CANPOS list" where
  "full_pool =
     (\<lparr>canId = 0x100, first = 0\<rparr> # replicate 9 \<lparr>canId = 0, first = 50\<rparr>,
      map (\<lambda>i. \<lparr>gain = 1, mapParam = of_nat i, offset = 0, offsetBits = 0, numBits = 1,
        nxt = (if i < 50 then of_nat (i + 1) else 0xff)\<rparr>) [0..<51])"

text \<open>
  and the send table left by adding parameter 7 on \<open>0x100\<close>, adding parameter 8 on
  \<open>0x200\<close> and removing parameter 7: entry 0 is empty, entry 1 holds the binding in slot 1.
\<close>

definition hole_table :: "CANIDMAP list \<times> rat CANPOS list" where
  "hole_table =
     ([\<lparr>canId = 0x100, first = 50\<rparr>, \<lparr>canId = 0x200, first = 1\<rparr>]
        @ replicate 8 \<lparr>canId = 0, first = 50\<rparr>,
      [\<lparr>gain = 1, mapParam = 7, offset = 0, offsetBits = 0, numBits = 8, nxt = 50\<rparr>,
       \<lparr>gain = 1, mapParam = 8, offset = 0, offsetBits = 0, numBits = 8, nxt = 50\<rparr>]
        @ replicate 49 \<lparr>gain = 0, mapParam = 0, offset = 0, offsetBits = 0, numBits = 0,
            nxt = 0xff\<rparr>)"

text \<open>The object the constructor makes from \<open>raw_CanMap\<close> and \<open>blank_flash\<close>.\<close>

definition fresh_CanMap :: "(rat, (PARAM_NUM \<times> rat) list) CanMap" where
  "fresh_CanMap =
     \<lparr>canHardware = \<lparr>userIds = replicate 10 0, nextUserMessageIndex = 0,
         nextCallbackIndex = 1, sent = [], filterConfigs = 0\<rparr>,
      nodeId = 1,
      canSendMap = fst start_tables,
      canRecvMap = fst start_tables,
      canPosMap = snd start_tables,
      isSaving = False,
      params = []\<rparr>"

text \<open>Ten receive bindings added to a fresh object, on ten identifiers.\<close>

definition ten_AddRecv :: "(rat, (PARAM_NUM \<times> rat) list) CanMap option" where
  "ten_AddRecv =
     fold (\<lambda>i so. do { s \<leftarrow> so;
                        (res, s') \<leftarrow> AddRecv demo s (of_nat i) (0x100 + of_nat i) 0 8 1 0;
                        Some s' })
       [0..<10] (Some fresh_CanMap)"

section \<open>Well-formed tables\<close>

text \<open>
  \<open>chainN mi pool i k\<close>: from slot \<open>i\<close> the links reach the index \<open>mi\<close> (the end of a
  chain) in \<open>k\<close> steps without leaving the pool.
\<close>

inductive chainN :: "nat \<Rightarrow> 'f CANPOS list \<Rightarrow> nat \<Rightarrow> nat \<Rightarrow> bool" for mi pool where
  chain_end: "chainN mi pool mi 0"
| chain_step: "i \<noteq> mi \<Longrightarrow> i < length pool \<Longrightarrow> chainN mi pool (unat (nxt (pool ! i))) k
     \<Longrightarrow> chainN mi pool i (Suc k)"

text \<open>
  The pool has \<^verbatim>\<open>MAX_ITEMS + 1\<close> slots, the last one is the tail with link \<^verbatim>\<open>ITEM_UNSET\<close>,
  and \<^verbatim>\<open>MAX_ITEMS\<close> is a byte value other than \<^verbatim>\<open>ITEM_UNSET\<close>.
\<close>

definition wf_pool :: "('f, 'ps) env \<Rightarrow> 'f CANPOS list \<Rightarrow> bool" where
  "wf_pool env pool \<longleftrightarrow>
     MAX_ITEMS env < 255 \<and> length pool = MAX_ITEMS env + 1 \<and>
     nxt (pool ! MAX_ITEMS env) = ITEM_UNSET"

text \<open>A table has \<^verbatim>\<open>MAX_MESSAGES\<close> entries and the head link of each starts a chain.\<close>

definition wf_tables :: "('f, 'ps) env \<Rightarrow> CANIDMAP list \<Rightarrow> 'f CANPOS list \<Rightarrow> bool" where
  "wf_tables env canMap pool \<longleftrightarrow>
     length canMap = MAX_MESSAGES env \<and>
     (\<forall>c \<in> set canMap. \<exists>k. chainN (MAX_ITEMS env) pool (unat (first c)) k)"

definition wf_CanMap :: "('f, 'ps) env \<Rightarrow> ('f, 'ps) CanMap \<Rightarrow> bool" where
  "wf_CanMap env s \<longleftrightarrow>
     wf_pool env (canPosMap s) \<and> wf_tables env (canSendMap s) (canPosMap s) \<and>
     wf_tables env (canRecvMap s) (canPosMap s)"

text \<open>What the branches of the request handler keep: the frames sent so far, the node
  identifier, the busy flag and well-formedness.\<close>

definition keeps :: "('f, 'ps) env \<Rightarrow> ('f, 'ps) CanMap \<Rightarrow> ('f, 'ps) CanMap \<Rightarrow> bool" where
  "keeps env s s' \<longleftrightarrow>
     wf_CanMap env s' \<and> sent (canHardware s') = sent (canHardware s) \<and>
     nodeId s' = nodeId s \<and> isSaving s' = isSaving s"

section \<open>The packed field, in words\<close>

text \<open>
  The field of a send binding as the specification words it: read the parameter as a
  float, add the bias, multiply by the gain, truncate, keep \<open>numBits\<close> bits.
\<close>

definition field_claimed :: "('f, 'ps) env \<Rightarrow> 'ps \<Rightarrow> 'f CANPOS \<Rightarrow> 32 word" where
  "field_claimed env ps p =
     take_bit (unat (numBits p))
       (int_of_flt env
          (flt_mul env
             (flt_add env (Param_GetFloat env (mapParam p) ps) (flt_of_int env (sint (offset p))))
             (gain p)))"

text \<open>The field with the two arithmetic steps in the other order: gain first, then bias.\<close>

definition field_sent :: "('f, 'ps) env \<Rightarrow> 'ps \<Rightarrow> 'f CANPOS \<Rightarrow> 32 word" where
  "field_sent env ps p =
     take_bit (unat (numBits p))
       (int_of_flt env
          (flt_add env
             (flt_mul env (Param_GetFloat env (mapParam p) ps) (gain p))
             (flt_of_int env (sint (offset p)))))"

text \<open>
  ORing a field into the frame: into the high word, shifted by \<open>bitOffset - 32\<close>, when the
  bit offset is 32 or more, into the low word, shifted by \<open>bitOffset\<close>, otherwise.
\<close>

definition or_into :: "32 word \<times> 32 word \<Rightarrow> 8 word \<Rightarrow> 32 word \<Rightarrow> 32 word \<times> 32 word" where
  "or_into data bitOffset v =
     (if 32 \<le> unat bitOffset then (fst data, snd data OR push_bit (unat bitOffset - 32) v)
      else (fst data OR push_bit (unat bitOffset) v, snd data))"

section \<open>Reachable states\<close>

text \<open>The arrays of an object have their declared sizes, and \<^verbatim>\<open>MAX_ITEMS\<close> is below \<^verbatim>\<open>0xff\<close>.\<close>

definition sized :: "('f, 'ps) env \<Rightarrow> ('f, 'ps) CanMap \<Rightarrow> bool" where
  "sized env raw \<longleftrightarrow>
     MAX_ITEMS env < 255 \<and> length (canSendMap raw) = MAX_MESSAGES env \<and>
     length (canRecvMap raw) = MAX_MESSAGES env \<and> length (canPosMap raw) = MAX_ITEMS env + 1"

text \<open>
  The states an object goes through: constructed over a stored image whose checksum does
  not match, then any sequence of the public operations that return, and changes of the
  busy flag (which \<^verbatim>\<open>Save\<close> sets and clears).
\<close>

inductive reachable :: "('f, 'ps) env \<Rightarrow> ('f, 'ps) CanMap \<Rightarrow> bool" for env where
  constructed:
    "sized env raw \<Longrightarrow>
     flashCrc flash \<noteq>
       crc_calculate_block env (flashSendMap flash, flashRecvMap flash, flashPosMap flash) \<Longrightarrow>
     CanMap_CanMap env flash raw = Some s \<Longrightarrow> reachable env s"
| after_AddSend:
    "reachable env s \<Longrightarrow> AddSend env s param cid offsBits len g offs = Some (res, s') \<Longrightarrow>
     reachable env s'"
| after_AddRecv:
    "reachable env s \<Longrightarrow> AddRecv env s param cid offsBits len g offs = Some (res, s') \<Longrightarrow>
     reachable env s'"
| after_Remove:
    "reachable env s \<Longrightarrow> Remove env s param = Some (removed, s') \<Longrightarrow> reachable env s'"
| after_HandleRx:
    "reachable env s \<Longrightarrow> HandleRx env s cid data = Some (handled, s') \<Longrightarrow> reachable env s'"
| after_SendAll:
    "reachable env s \<Longrightarrow> SendAll env s = Some s' \<Longrightarrow> reachable env s'"
| busy_flag:
    "reachable env s \<Longrightarrow> reachable env (s\<lparr>isSaving := b\<rparr>)"

section \<open>The table scans\<close>

lemma takeWhile_update_stop:
  "i < length xs \<Longrightarrow> \<not> P (xs ! i) \<Longrightarrow> \<not> P y \<Longrightarrow> takeWhile P (xs[i := y]) = takeWhile P xs"
proof (induction xs arbitrary: i)
  case Nil
  then show ?case by simp
next
  case (Cons x xs)
  then show ?case by (cases i) auto
qed

lemma enumerate_update:
  "enumerate n (xs[i := y]) = (enumerate n xs)[i := (n + i, y)]"
  by (induction xs arbitrary: n i) (auto split: nat.splits)

lemma forEachCanMap_update_free:
  assumes "i < MAX_MESSAGES env" "i < length m" "unat (first (m ! i)) = MAX_ITEMS env"
    "unat (first c) = MAX_ITEMS env"
  shows "forEachCanMap env (m[i := c]) = forEachCanMap env m"
  using assms
  unfolding forEachCanMap_def
  by (simp add: take_update_swap enumerate_update takeWhile_update_stop nth_enumerate_eq)

lemma findFreeMap_Some:
  "findFreeMap env m = Some i \<Longrightarrow> i < MAX_MESSAGES env \<and> i < length m \<and> unat (first (m ! i)) = MAX_ITEMS env"
  by (auto simp: findFreeMap_def find_Some_iff nth_enumerate_eq)

lemma map_first_update_canId: "i < length m \<Longrightarrow> map first (m[i := (m ! i)\<lparr>canId := cid\<rparr>]) = map first m"
  by (simp add: map_update list_update_same_conv)

text \<open>
  C5 (rejection by \<^verbatim>\<open>Add\<close>).  An identifier above \<open>0x1FFFFFFF\<close> gives the invalid-id
  code; otherwise a bit offset above 63 gives the invalid-offset code; otherwise a width
  above 32 gives the invalid-length code; each time the table and the pool are returned
  as they were.  Whenever \<^verbatim>\<open>Add\<close> returns an error code, the pool is unchanged, no head
  link has changed and \<^verbatim>\<open>forEachCanMap\<close> visits the same entries with the same contents;
  unless the code is max-items the table is unchanged altogether (on max-items the
  identifier field of a free entry, which no iteration reads, may have been written).
\<close>

theorem Add_rejects:
  "(cid > 0x1fffffff \<longrightarrow>
      Add env (canMap, pool) param cid offsBits len g offs = Some (Inl CAN_ERR_INVALID_ID, canMap, pool)) \<and>
   (cid \<le> 0x1fffffff \<and> offsBits > 63 \<longrightarrow>
      Add env (canMap, pool) param cid offsBits len g offs = Some (Inl CAN_ERR_INVALID_OFS, canMap, pool)) \<and>
   (cid \<le> 0x1fffffff \<and> offsBits \<le> 63 \<and> len > 32 \<longrightarrow>
      Add env (canMap, pool) param cid offsBits len g offs = Some (Inl CAN_ERR_INVALID_LEN, canMap, pool)) \<and>
   (\<forall>err canMap' pool'.
      Add env (canMap, pool) param cid offsBits len g offs = Some (Inl err, canMap', pool') \<longrightarrow>
        pool' = pool \<and> map first canMap' = map first canMap \<and>
        forEachCanMap env canMap' = forEachCanMap env canMap \<and>
        (err \<noteq> CAN_ERR_MAXITEMS \<longrightarrow> canMap' = canMap))"
proof (intro conjI allI impI)
  fix err canMap' pool'
  assume a: "Add env (canMap, pool) param cid offsBits len g offs = Some (Inl err, canMap', pool')"
  have "pool' = pool \<and> ((err \<noteq> CAN_ERR_MAXITEMS \<and> canMap' = canMap) \<or> canMap' = canMap \<or> 
      (\<exists>i. findFreeMap env canMap = Some i \<and> canMap' = canMap[i := (canMap ! i)\<lparr>canId := cid\<rparr>]))"
    using a by (auto simp: Add_def Let_def split: if_splits option.splits)
  then show "pool' = pool" "map first canMap' = map first canMap" "forEachCanMap env canMap' = forEachCanMap env canMap"
    by (auto dest!: findFreeMap_Some simp: map_first_update_canId forEachCanMap_update_free)
  assume "err \<noteq> CAN_ERR_MAXITEMS"
  then show "canMap' = canMap"
    using a by (auto simp: Add_def Let_def split: if_splits option.splits)
qed (auto simp: Add_def)

theorem Add_rejects_witness:
  "Add demo start_tables 7 0x20000000 0 8 1 0 = Some (Inl CAN_ERR_INVALID_ID, start_tables) \<and>
   Add demo start_tables 7 0x100 64 8 1 0 = Some (Inl CAN_ERR_INVALID_OFS, start_tables) \<and>
   Add demo start_tables 7 0x100 0 33 1 0 = Some (Inl CAN_ERR_INVALID_LEN, start_tables) \<and>
   Add demo full_table 7 0x777 0 8 1 0 = Some (Inl CAN_ERR_MAXMESSAGES, full_table) \<and>
   Add demo full_pool 7 0x200 0 8 1 0 =
     Some (Inl CAN_ERR_MAXITEMS, (fst full_pool)[1 := \<lparr>canId = 0x200, first = 50\<rparr>], snd full_pool) \<and>
   (fst full_pool)[1 := \<lparr>canId = 0x200, first = 50\<rparr>] \<noteq> fst full_pool \<and>
   forEachCanMap demo ((fst full_pool)[1 := \<lparr>canId = 0x200, first = 50\<rparr>])
     = forEachCanMap demo (fst full_pool) \<and>
   map first ((fst full_pool)[1 := \<lparr>canId = 0x200, first = 50\<rparr>]) = map first (fst full_pool)"
proof -
  note r = Add_rejects[where env = demo and param = 7 and g = 1 and offs = 0]
  have 1: "Add demo start_tables 7 0x20000000 0 8 1 0 = Some (Inl CAN_ERR_INVALID_ID, start_tables)"
    using r[where canMap = "fst start_tables" and pool = "snd start_tables"
        and cid = "0x20000000" and offsBits = 0 and len = 8]
    by simp
  have 2: "Add demo start_tables 7 0x100 64 8 1 0 = Some (Inl CAN_ERR_INVALID_OFS, start_tables)"
    using r[where canMap = "fst start_tables" and pool = "snd start_tables"
        and cid = "0x100" and offsBits = 64 and len = 8]
    by simp
  have 3: "Add demo start_tables 7 0x100 0 33 1 0 = Some (Inl CAN_ERR_INVALID_LEN, start_tables)"
    using r[where canMap = "fst start_tables" and pool = "snd start_tables"
        and cid = "0x100" and offsBits = 0 and len = 33]
    by simp
  have 4: "Add demo full_table 7 0x777 0 8 1 0 = Some (Inl CAN_ERR_MAXMESSAGES, full_table)"
    by code_simp
  have 5: "Add demo (fst full_pool, snd full_pool) 7 0x200 0 8 1 0 =
     Some (Inl CAN_ERR_MAXITEMS, (fst full_pool)[1 := \<lparr>canId = 0x200, first = 50\<rparr>], snd full_pool)"
    by code_simp
  have 6: "(fst full_pool)[1 := \<lparr>canId = 0x200, first = 50\<rparr>] \<noteq> fst full_pool"
    by code_simp
  from 5 r[where canMap = "fst full_pool" and pool = "snd full_pool"
        and cid = "0x200" and offsBits = 0 and len = 8]
  have 7: "forEachCanMap demo ((fst full_pool)[1 := \<lparr>canId = 0x200, first = 50\<rparr>])
     = forEachCanMap demo (fst full_pool) \<and>
   map first ((fst full_pool)[1 := \<lparr>canId = 0x200, first = 50\<rparr>]) = map first (fst full_pool)"
    by blast
  from 1 2 3 4 5 6 7 show ?thesis by simp
qed

lemma take_enumerate: "take k (enumerate n xs) = enumerate n (take k xs)"
  by (induction xs arbitrary: k n) (auto simp: take_Cons split: nat.splits)

lemma forEachCanMap_first_free:
  assumes "k < MAX_MESSAGES env" "k < length m" "unat (first (m ! k)) = MAX_ITEMS env"
    and "\<And>j. j < k \<Longrightarrow> unat (first (m ! j)) \<noteq> MAX_ITEMS env"
  shows "forEachCanMap env m = enumerate 0 (take k m)"
proof -
  let ?xs = "enumerate 0 (take (MAX_MESSAGES env) m)"
  have "takeWhile (\<lambda>(i, c). unat (first c) \<noteq> MAX_ITEMS env) ?xs = take k ?xs"
    using assms by (intro takeWhile_eq_take_P_nth) (auto simp: nth_enumerate_eq)
  also have "\<dots> = enumerate 0 (take k m)"
    using assms by (simp add: take_enumerate min_def)
  finally show ?thesis by (simp add: forEachCanMap_def)
qed

lemma findFreeMap_first_free:
  assumes "k < MAX_MESSAGES env" "k < length m" "unat (first (m ! k)) = MAX_ITEMS env"
    and "\<And>j. j < k \<Longrightarrow> unat (first (m ! j)) \<noteq> MAX_ITEMS env"
  shows "findFreeMap env m = Some k"
proof -
  let ?xs = "enumerate 0 (take (MAX_MESSAGES env) m)"
  have "find (\<lambda>(i, c). unat (first c) = MAX_ITEMS env) ?xs = Some (k, m ! k)"
    unfolding find_Some_iff using assms
    by (intro exI[of _ k]) (auto simp: nth_enumerate_eq)
  then show ?thesis by (simp add: findFreeMap_def)
qed

text \<open>
  What the code does at the first entry of a table whose head link is \<^verbatim>\<open>MAX_ITEMS\<close>, say
  entry \<open>k\<close>: \<^verbatim>\<open>forEachCanMap\<close> visits exactly the entries stored before \<open>k\<close>, the
  identifier lookup returns none but these, and an \<^verbatim>\<open>Add\<close> with valid arguments whose
  identifier the lookup does not find, made while the pool has a free slot, puts the new
  identifier and the new binding into entry \<open>k\<close>.
\<close>

lemma first_free_entry:
  assumes "k < MAX_MESSAGES env" "k < length m" "unat (first (m ! k)) = MAX_ITEMS env"
    and "\<forall>j<k. unat (first (m ! j)) \<noteq> MAX_ITEMS env"
  shows "forEachCanMap env m = enumerate 0 (take k m) \<and>
    (\<forall>i. FindById env m cid = Some i \<longrightarrow> i < k) \<and>
    (cid \<le> 0x1fffffff \<and> offsBits \<le> 63 \<and> len \<le> 32 \<and> FindById env m cid = None \<and>
       findFreeIndex env pool \<noteq> MAX_ITEMS env \<longrightarrow>
       (\<exists>count. Add env (m, pool) param cid offsBits len g offs =
           Some (Inr count, m[k := \<lparr>canId = cid, first = of_nat (findFreeIndex env pool)\<rparr>],
             pool[findFreeIndex env pool := \<lparr>gain = g, mapParam = param, offset = offs,
                                  offsetBits = offsBits, numBits = len,
                                  nxt = of_nat (MAX_ITEMS env)\<rparr>])))"
proof (intro conjI allI impI)
  show v: "forEachCanMap env m = enumerate 0 (take k m)"
    using assms by (intro forEachCanMap_first_free) auto
  show "i < k" if "FindById env m cid = Some i" for i
    using that assms(2) unfolding FindById_def v
    by (auto simp: find_Some_iff nth_enumerate_eq)
  assume a: "cid \<le> 0x1fffffff \<and> offsBits \<le> 63 \<and> len \<le> 32 \<and> FindById env m cid = None \<and>
       findFreeIndex env pool \<noteq> MAX_ITEMS env"
  have f: "findFreeMap env m = Some k"
    using assms by (intro findFreeMap_first_free) auto
  show "\<exists>count. Add env (m, pool) param cid offsBits len g offs =
           Some (Inr count, m[k := \<lparr>canId = cid, first = of_nat (findFreeIndex env pool)\<rparr>],
             pool[findFreeIndex env pool := \<lparr>gain = g, mapParam = param, offset = offs,
                                  offsetBits = offsBits, numBits = len,
                                  nxt = of_nat (MAX_ITEMS env)\<rparr>])"
    using a f assms(2,3)
    by (cases "m ! k") (simp add: Add_def Let_def findPreceding.simps not_less[symmetric])
qed

lemma first_free_entry_at_hole:
  "forEachCanMap demo (fst hole_table) = [] \<and>
   FindById demo (fst hole_table) 0x200 = None \<and>
   (\<exists>count. Add demo hole_table 9 0x200 0 8 1 0 =
      Some (Inr count, (fst hole_table)[0 := \<lparr>canId = 0x200, first = 2\<rparr>],
        (snd hole_table)[2 := \<lparr>gain = 1, mapParam = 9, offset = 0, offsetBits = 0,
           numBits = 8, nxt = 50\<rparr>]))"
proof -
  have h: "0 < MAX_MESSAGES demo" "0 < length (fst hole_table)"
    "unat (first (fst hole_table ! 0)) = MAX_ITEMS demo"
    "\<forall>j<0. unat (first (fst hole_table ! j)) \<noteq> MAX_ITEMS demo"
    by (simp_all add: demo_def demo_env_def hole_table_def)
  have n: "FindById demo (fst hole_table) 0x200 = None" by code_simp
  have f: "findFreeIndex demo (snd hole_table) = 2" by code_simp
  have m: "MAX_ITEMS demo = 50" by (simp add: demo_def demo_env_def)
  from first_free_entry[OF h, where cid = "0x200" and offsBits = 0 and len = 8
      and pool = "snd hole_table" and param = 9 and g = 1 and offs = 0] n f m
  show ?thesis by simp
qed

text \<open>
  C3 (iteration past an emptied entry).  Parameter 7 is added on \<open>0x100\<close> and parameter 8
  on \<open>0x200\<close> in the send direction; \<^verbatim>\<open>FindMap\<close> finds parameter 8.  Then parameter 7 is
  removed: the send table is \<open>hole_table\<close>, entry 0 with head link 50 and entry 1 with
  head link 1, still holding the binding of parameter 8.  No iteration skips entry 0 to
  reach entry 1: \<^verbatim>\<open>FindMap\<close> no longer finds parameter 8, \<^verbatim>\<open>IterateCanMap\<close> calls its
  callback for nothing, \<^verbatim>\<open>FindById\<close> does not find \<open>0x200\<close> and \<^verbatim>\<open>SendAll\<close> sends no
  frame.  A further add on \<open>0x200\<close> succeeds, takes entry 0 and leaves \<open>0x200\<close> in two
  entries of the table.
\<close>

theorem hole_hides_later_entries:
  "do { s0 \<leftarrow> CanMap_CanMap demo blank_flash raw_CanMap;
        (res1, s1) \<leftarrow> AddSend demo s0 7 0x100 0 8 1 0;
        (res2, s2) \<leftarrow> AddSend demo s1 8 0x200 0 8 1 0;
        before \<leftarrow> FindMap demo s2 8;
        (removed, s3) \<leftarrow> Remove demo s2 7;
        found \<leftarrow> FindMap demo s3 8;
        calls \<leftarrow> IterateCanMap demo s3;
        s4 \<leftarrow> SendAll demo s3;
        (res5, s5) \<leftarrow> AddSend demo s3 9 0x200 0 8 1 0;
        Some ((canSendMap s3, canPosMap s3) = hole_table, map first (take 2 (canSendMap s3)),
              before, found, calls, FindById demo (canSendMap s3) 0x200, sent (canHardware s4),
              res5, map canId (take 2 (canSendMap s5))) }
   = Some (True, [50, 1], Some (0x200, 0, 8, 1, False), None, [], None, [],
           Inr 2, [0x200, 0x200])"
  by code_simp

section \<open>Chains\<close>

lemma chainN_unique: "chainN mi pool i k \<Longrightarrow> chainN mi pool i k' \<Longrightarrow> k = k'"
proof (induction arbitrary: k' rule: chainN.induct)
  case chain_end
  then show ?case by (auto elim: chainN.cases)
next
  case (chain_step i k)
  from chain_step.prems chain_step.hyps(1) obtain j where "k' = Suc j"
    "chainN mi pool (unat (nxt (pool ! i))) j"
    by (auto elim: chainN.cases)
  with chain_step.IH show ?case by simp
qed

lemma findPreceding_chain:
  "chainN mi pool i k \<Longrightarrow>
     \<exists>r. findPreceding mi pool i acc = Some r \<and>
       (if i = mi then r = acc
        else \<exists>p. r = Some p \<and> p \<noteq> mi \<and> p < length pool \<and> unat (nxt (pool ! p)) = mi)"
proof (induction arbitrary: acc rule: chainN.induct)
  case chain_end
  then show ?case by (simp add: findPreceding.simps)
next
  case (chain_step i k)
  from chain_step.IH[of "Some i"] chain_step.hyps(1,2)
  show ?case
    by (subst findPreceding.simps) (auto split: if_splits)
qed

lemma free_not_on_chain:
  assumes "chainN mi pool i k" "i \<noteq> mi" "length pool \<le> 255" "mi < 255"
  shows "nxt (pool ! i) \<noteq> ITEM_UNSET"
proof
  assume u: "nxt (pool ! i) = ITEM_UNSET"
  from assms(1,2) obtain j where "chainN mi pool (unat (nxt (pool ! i))) j"
    by (auto elim: chainN.cases)
  then have "chainN mi pool 255 j" using u by (simp add: ITEM_UNSET_def)
  then show False using assms(3,4) by (auto elim: chainN.cases)
qed

lemma findFreeIndex_le: "findFreeIndex env pool \<le> MAX_ITEMS env"
  unfolding findFreeIndex_def
  by (rule order_trans[OF length_takeWhile_le]) simp

lemma findFreeIndex_free:
  assumes "findFreeIndex env pool \<noteq> MAX_ITEMS env" "MAX_ITEMS env \<le> length pool"
  shows "nxt (pool ! findFreeIndex env pool) = ITEM_UNSET"
proof -
  let ?xs = "take (MAX_ITEMS env) pool"
  have l: "length (takeWhile (\<lambda>p. nxt p \<noteq> ITEM_UNSET) ?xs) < length ?xs"
    using assms findFreeIndex_le[of env pool] by (simp add: findFreeIndex_def)
  from nth_length_takeWhile[OF l] l show ?thesis
    by (simp add: findFreeIndex_def)
qed

text \<open>Writing a free slot and linking it behind the tail keeps every chain a chain.\<close>

lemma chain_append_slot:
  assumes c: "chainN mi pool i k"
    and f: "f < mi" "nxt (pool ! f) = ITEM_UNSET"
    and b: "length pool = mi + 1" "mi < 255"
    and x: "unat (nxt x) = mi"
    and p: "prec = None \<or> (\<exists>p. prec = Some p \<and> p \<noteq> mi \<and> p < length pool \<and> unat (nxt (pool ! p)) = mi)"
  shows "\<exists>k'. chainN mi (case prec of None \<Rightarrow> pool[f := x]
                  | Some p \<Rightarrow> (pool[f := x])[p := (pool[f := x] ! p)\<lparr>nxt := of_nat f\<rparr>]) i k'"
  using c
proof (induction rule: chainN.induct)
  case chain_end
  then show ?case by (auto intro: chainN.chain_end)
next
  case (chain_step i k)
  let ?pool' = "case prec of None \<Rightarrow> pool[f := x]
                  | Some p \<Rightarrow> (pool[f := x])[p := (pool[f := x] ! p)\<lparr>nxt := of_nat f\<rparr>]"
  have len: "length ?pool' = length pool" by (simp split: option.splits)
  have nf: "i \<noteq> f"
    using free_not_on_chain[OF chainN.chain_step[OF chain_step.hyps]] chain_step.hyps(1) f b
    by auto
  have uf: "unat (of_nat f :: 8 word) = f"
    using f b by (simp add: unat_of_nat)
  have fchain: "prec \<noteq> None \<Longrightarrow> chainN mi ?pool' f 1"
  proof -
    assume "prec \<noteq> None"
    then obtain p where pp: "prec = Some p" "p \<noteq> mi" "p < length pool" "unat (nxt (pool ! p)) = mi"
      using p by auto
    have "p \<noteq> f" using pp f b by (auto simp: ITEM_UNSET_def)
    then have "?pool' ! f = x" using pp f b by simp
    then have "chainN mi ?pool' (unat (nxt (?pool' ! f))) 0"
      using x by (simp add: chainN.chain_end)
    from chainN.chain_step[OF _ _ this] show ?thesis using f b len by simp
  qed
  show ?case
  proof (cases "prec = Some i")
    case True
    then have "unat (nxt (?pool' ! i)) = f" using chain_step.hyps(2) nf uf by simp
    with fchain True have "chainN mi ?pool' (unat (nxt (?pool' ! i))) 1" by simp
    from chainN.chain_step[OF chain_step.hyps(1) _ this] show ?thesis
      using chain_step.hyps(2) len by auto
  next
    case False
    then have "?pool' ! i = pool ! i" using nf by (cases prec) (auto simp: nth_list_update)
    with chain_step.IH obtain k' where "chainN mi ?pool' (unat (nxt (?pool' ! i))) k'" by auto
    from chainN.chain_step[OF chain_step.hyps(1) _ this] show ?thesis
      using chain_step.hyps(2) len by auto
  qed
qed

lemma FindById_Some: "FindById env m cid = Some e \<Longrightarrow> e < length m"
  by (auto simp: FindById_def forEachCanMap_def find_Some_iff in_set_enumerate_eq
      dest!: nth_mem set_takeWhileD)

lemma wf_tables_update:
  assumes "wf_tables env m pool" "e < length m" "\<exists>k. chainN (MAX_ITEMS env) pool (unat (first c)) k"
  shows "wf_tables env (m[e := c]) pool"
  using assms unfolding wf_tables_def
  by (auto dest!: set_update_subset_insert[THEN subsetD])

lemma wf_tables_chain:
  "wf_tables env m pool \<Longrightarrow> e < length m \<Longrightarrow> \<exists>k. chainN (MAX_ITEMS env) pool (unat (first (m ! e))) k"
  by (auto simp: wf_tables_def)

lemma wf_tables_mono:
  assumes "wf_tables env m pool"
    and "\<And>i k. chainN (MAX_ITEMS env) pool i k \<Longrightarrow> \<exists>k'. chainN (MAX_ITEMS env) pool' i k'"
  shows "wf_tables env m pool'"
  using assms unfolding wf_tables_def by blast

lemma Add_wf:
  assumes wp: "wf_pool env pool" and wt: "wf_tables env m pool"
  shows "\<exists>res m' pool'. Add env (m, pool) param cid ob len g offs = Some (res, m', pool') \<and>
           wf_pool env pool' \<and> wf_tables env m' pool' \<and>
           (\<forall>i k. chainN (MAX_ITEMS env) pool i k \<longrightarrow> (\<exists>k'. chainN (MAX_ITEMS env) pool' i k'))"
proof (cases "cid > 0x1fffffff \<or> ob > 63 \<or> len > 32")
  case True
  then show ?thesis using wp wt by (auto simp: Add_def)
next
  case False
  let ?mi = "MAX_ITEMS env"
  define sel where "sel = (case FindById env m cid of
                 Some i \<Rightarrow> Some (i, m)
               | None \<Rightarrow>
                   (case findFreeMap env m of
                      None \<Rightarrow> None
                    | Some i \<Rightarrow> Some (i, m[i := (m ! i)\<lparr>canId := cid\<rparr>])))"
  show ?thesis
  proof (cases sel)
    case None
    then show ?thesis using False wp wt by (auto simp: Add_def sel_def split: option.splits)
  next
    case (Some a)
    obtain e m1 where a: "a = (e, m1)" by (cases a)
    have e: "e < length m" and m1: "m1 = m \<or> m1 = m[e := (m ! e)\<lparr>canId := cid\<rparr>]"
      using Some a by (auto simp: sel_def split: option.splits dest: FindById_Some findFreeMap_Some)
    have fe: "first (m1 ! e) = first (m ! e)" and le: "e < length m1" using m1 e by auto
    have wt1: "wf_tables env m1 pool"
      using m1 wt e wf_tables_chain[OF wt e] by (auto intro!: wf_tables_update)
    define f where "f = findFreeIndex env pool"
    show ?thesis
    proof (cases "f = ?mi")
      case True
      then show ?thesis using False Some a wp wt1
        by (auto simp: Add_def sel_def[symmetric] f_def)
    next
      case nfull: False
      have fl: "f < ?mi" using nfull findFreeIndex_le[of env pool] by (simp add: f_def)
      have ff: "nxt (pool ! f) = ITEM_UNSET"
        using findFreeIndex_free[of env pool] nfull wp by (simp add: f_def wf_pool_def)
      from wf_tables_chain[OF wt e] obtain k where ch: "chainN ?mi pool (unat (first (m ! e))) k" ..
      from findPreceding_chain[OF ch, of None] obtain r where
        r: "findPreceding ?mi pool (unat (first (m ! e))) None = Some r"
        and rp: "if unat (first (m ! e)) = ?mi then r = None
                 else \<exists>p. r = Some p \<and> p \<noteq> ?mi \<and> p < length pool \<and> unat (nxt (pool ! p)) = ?mi"
        by blast
      define y :: "'a CANPOS" where "y = \<lparr>gain = g, mapParam = param, offset = offs,
               offsetBits = ob, numBits = len, nxt = of_nat ?mi\<rparr>"
      define pool' where "pool' = (case r of None \<Rightarrow> pool[f := y]
                  | Some p \<Rightarrow> (pool[f := y])[p := (pool[f := y] ! p)\<lparr>nxt := of_nat f\<rparr>])"
      define m' where "m' = (case r of None \<Rightarrow> m1[e := (m1 ! e)\<lparr>first := of_nat f\<rparr>] | Some p \<Rightarrow> m1)"
      have mi: "?mi < 255" and lp: "length pool = ?mi + 1" and tl: "nxt (pool ! ?mi) = ITEM_UNSET"
        using wp by (auto simp: wf_pool_def)
      have uy: "unat (nxt y) = ?mi" using mi by (simp add: y_def unat_of_nat)
      have rp': "r = None \<or> (\<exists>p. r = Some p \<and> p \<noteq> ?mi \<and> p < length pool \<and> unat (nxt (pool ! p)) = ?mi)"
        using rp by (auto split: if_splits)
      have pres: "\<exists>k'. chainN ?mi pool' i k'" if "chainN ?mi pool i k" for i k
        unfolding pool'_def
        by (rule chain_append_slot[OF that fl ff lp mi uy rp'])
      have eq: "Add env (m, pool) param cid ob len g offs =
                  Some (Inr (length (forEachCanMap env m')), m', pool')"
        using False Some a nfull r
        by (cases r)
          (simp_all add: Add_def sel_def[symmetric] f_def[symmetric] fe Let_def
            pool'_def m'_def y_def)
      have lp': "length pool' = length pool" by (simp add: pool'_def split: option.splits)
      have "pool' ! ?mi = pool ! ?mi"
        using fl rp' by (auto simp: pool'_def split: option.splits)
      then have wp': "wf_pool env pool'" using wp lp' by (simp add: wf_pool_def)
      have wt1': "wf_tables env m1 pool'" using wt1 pres by (rule wf_tables_mono)
      have "wf_tables env m' pool'"
      proof (cases r)
        case None
        have "pool' ! f = y" using None fl lp by (simp add: pool'_def)
        then have "chainN ?mi pool' (unat (nxt (pool' ! f))) 0"
          using uy by (simp add: chainN.chain_end)
        from chainN.chain_step[OF _ _ this] have "chainN ?mi pool' f 1"
          using fl lp lp' by simp
        moreover have "unat (of_nat f :: 8 word) = f" using fl mi by (simp add: unat_of_nat)
        ultimately show ?thesis using None wt1' le
          by (auto simp: m'_def intro!: wf_tables_update)
      next
        case (Some p)
        then show ?thesis using wt1' by (simp add: m'_def)
      qed
      with eq wp' pres show ?thesis by blast
    qed
  qed
qed

section \<open>Remote configuration requests\<close>

lemma w255: "(0xff :: 32 word) = mask 8"
  by (simp add: mask_eq_exp_minus_1)

lemma sdo_cmd_set: "sdo_cmd (set_sdo_data d (set_sdo_cmd c data)) = c"
  unfolding sdo_cmd_def set_sdo_data_def set_sdo_cmd_def w255
  by (simp, rule bit_word_eqI) (auto simp: bit_simps)

lemma sdo_data_set: "sdo_data (set_sdo_data d (set_sdo_cmd c data)) = d"
  by (simp add: sdo_data_def set_sdo_data_def)

lemma sdo_index_set: "sdo_index (set_sdo_data d (set_sdo_cmd c data)) = sdo_index data"
  unfolding sdo_index_def set_sdo_data_def set_sdo_cmd_def w255
  by (simp, rule bit_word_eqI) (auto simp: bit_simps dest: bit_imp_le_length)

lemma sdo_subIndex_set: "sdo_subIndex (set_sdo_data d (set_sdo_cmd c data)) = sdo_subIndex data"
  unfolding sdo_subIndex_def set_sdo_data_def set_sdo_cmd_def w255
  by (simp, rule bit_word_eqI) (auto simp: bit_simps dest: bit_imp_le_length)

lemma fresh: "CanMap_CanMap demo blank_flash raw_CanMap = Some fresh_CanMap"
  by code_simp

lemma RegisterUserMessage_sent: "sent (snd (RegisterUserMessage env hw cid)) = sent hw"
  by (simp add: RegisterUserMessage_def ConfigureFilters_def)

lemma wf_CanMap_upd [simp]:
  "wf_CanMap env (s\<lparr>canHardware := hw\<rparr>) = wf_CanMap env s"
  "wf_CanMap env (s\<lparr>params := ps\<rparr>) = wf_CanMap env s"
  "wf_CanMap env (s\<lparr>isSaving := b\<rparr>) = wf_CanMap env s"
  by (simp_all add: wf_CanMap_def)

lemma keeps_refl: "wf_CanMap env s \<Longrightarrow> keeps env s s"
  by (simp add: keeps_def)

lemma keeps_params: "wf_CanMap env s \<Longrightarrow> keeps env s (s\<lparr>params := ps\<rparr>)"
  by (simp add: keeps_def)

lemma AddSend_wf:
  assumes "wf_CanMap env s"
  shows "\<exists>res s'. AddSend env s param cid ob len g offs = Some (res, s') \<and> keeps env s s'"
proof -
  from assms have wp: "wf_pool env (canPosMap s)" and wt: "wf_tables env (canSendMap s) (canPosMap s)"
    and wr: "wf_tables env (canRecvMap s) (canPosMap s)"
    by (auto simp: wf_CanMap_def)
  from Add_wf[OF wp wt, of param cid ob len g offs] obtain res m' pool' where
    a: "Add env (canSendMap s, canPosMap s) param cid ob len g offs = Some (res, m', pool')"
    and w: "wf_pool env pool'" "wf_tables env m' pool'"
    and c: "\<And>i k. chainN (MAX_ITEMS env) (canPosMap s) i k \<Longrightarrow> \<exists>k'. chainN (MAX_ITEMS env) pool' i k'"
    by blast
  have "wf_tables env (canRecvMap s) pool'" using wr c by (rule wf_tables_mono)
  with a w show ?thesis by (simp add: AddSend_def wf_CanMap_def keeps_def)
qed

lemma AddRecv_wf:
  assumes "wf_CanMap env s"
  shows "\<exists>res s'. AddRecv env s param cid ob len g offs = Some (res, s') \<and> keeps env s s'"
proof -
  from assms have wp: "wf_pool env (canPosMap s)" and wt: "wf_tables env (canSendMap s) (canPosMap s)"
    and wr: "wf_tables env (canRecvMap s) (canPosMap s)"
    by (auto simp: wf_CanMap_def)
  from Add_wf[OF wp wr, of param cid ob len g offs] obtain res m' pool' where
    a: "Add env (canRecvMap s, canPosMap s) param cid ob len g offs = Some (res, m', pool')"
    and w: "wf_pool env pool'" "wf_tables env m' pool'"
    and c: "\<And>i k. chainN (MAX_ITEMS env) (canPosMap s) i k \<Longrightarrow> \<exists>k'. chainN (MAX_ITEMS env) pool' i k'"
    by blast
  have "wf_tables env (canSendMap s) pool'" using wt c by (rule wf_tables_mono)
  with a w show ?thesis by (simp add: AddRecv_def wf_CanMap_def RegisterUserMessage_sent keeps_def)
qed

lemma branches_param:
  assumes "sdo_index data \<ge> 0x2000 \<and> sdo_index data \<le> 0x2001
         \<and> unat (sdo_subIndex data) < PARAM_LAST env"
  shows "ProcessSDO_branches env s data =
       (let paramIdx = (if sdo_index data = 0x2001
                        then Param_NumFromId env (ucast (sdo_subIndex data))
                        else ucast (sdo_subIndex data))
        in
        if sdo_cmd data = SDO_WRITE then
          (case Param_Set env paramIdx (sdo_data data) (params s) of
             (res, ps') \<Rightarrow>
               if res = 0 then Some (s\<lparr>params := ps'\<rparr>, set_sdo_cmd SDO_WRITE_REPLY data)
               else Some (s\<lparr>params := ps'\<rparr>,
                      set_sdo_data SDO_ERR_RANGE (set_sdo_cmd SDO_ABORT data)))
        else if sdo_cmd data = SDO_READ then
          Some (s, set_sdo_cmd SDO_READ_REPLY
                     (set_sdo_data (Param_Get env paramIdx (params s)) data))
        else Some (s, data))"
  by (subst ProcessSDO_branches_def, subst if_P[OF assms], rule refl)

lemma branches_map_write:
  assumes "\<not> (sdo_index data \<ge> 0x2000 \<and> sdo_index data \<le> 0x2001
         \<and> unat (sdo_subIndex data) < PARAM_LAST env)"
    and "sdo_index data \<ge> 0x3000 \<and> sdo_index data < 0x4800
              \<and> unat (sdo_subIndex data) < PARAM_LAST env"
    and "sdo_cmd data = SDO_WRITE"
  shows "ProcessSDO_branches env s data =
          (case (if sdo_index data AND 0x4000 = 0x4000
                 then AddRecv env s (ucast (sdo_subIndex data)) (ucast (sdo_index data AND 0x7ff))
                        (ucast (sdo_data data AND 0xff)) (ucast (drop_bit 8 (sdo_data data) AND 0xff))
                        (flt_of_int env (sint (drop_bit 16 (sdo_data data)))) 0
                 else AddSend env s (ucast (sdo_subIndex data)) (ucast (sdo_index data AND 0x7ff))
                        (ucast (sdo_data data AND 0xff)) (ucast (drop_bit 8 (sdo_data data) AND 0xff))
                        (flt_of_int env (sint (drop_bit 16 (sdo_data data)))) 0) of
             None \<Rightarrow> None
           | Some (Inr count, s') \<Rightarrow> Some (s', set_sdo_cmd SDO_WRITE_REPLY data)
           | Some (Inl err, s') \<Rightarrow>
               Some (s', set_sdo_data SDO_ERR_RANGE (set_sdo_cmd SDO_ABORT data)))"
  by (subst ProcessSDO_branches_def, subst if_not_P[OF assms(1)], subst if_P[OF assms(2)],
      subst if_P[OF assms(3)], simp only: Let_def)

lemma branches_map_other:
  assumes "\<not> (sdo_index data \<ge> 0x2000 \<and> sdo_index data \<le> 0x2001
         \<and> unat (sdo_subIndex data) < PARAM_LAST env)"
    and "sdo_index data \<ge> 0x3000 \<and> sdo_index data < 0x4800
              \<and> unat (sdo_subIndex data) < PARAM_LAST env"
    and "sdo_cmd data \<noteq> SDO_WRITE"
  shows "ProcessSDO_branches env s data = Some (s, data)"
  by (subst ProcessSDO_branches_def, subst if_not_P[OF assms(1)], subst if_P[OF assms(2)],
      subst if_not_P[OF assms(3)], rule refl)

lemma branches_other:
  assumes "\<not> (sdo_index data \<ge> 0x2000 \<and> sdo_index data \<le> 0x2001
         \<and> unat (sdo_subIndex data) < PARAM_LAST env)"
    and "\<not> (sdo_index data \<ge> 0x3000 \<and> sdo_index data < 0x4800
              \<and> unat (sdo_subIndex data) < PARAM_LAST env)"
  shows "ProcessSDO_branches env s data =
           Some (s, set_sdo_data SDO_ERR_INVIDX (set_sdo_cmd SDO_ABORT data))"
  by (subst ProcessSDO_branches_def, subst if_not_P[OF assms(1)], subst if_not_P[OF assms(2)],
      rule refl)

lemma ProcessSDO_branches_total:
  assumes w: "wf_CanMap env s"
  shows "\<exists>s' data'. ProcessSDO_branches env s data = Some (s', data') \<and> keeps env s s'"
proof (cases "sdo_index data \<ge> 0x2000 \<and> sdo_index data \<le> 0x2001
         \<and> unat (sdo_subIndex data) < PARAM_LAST env")
  case True
  show ?thesis using keeps_refl[OF w] keeps_params[OF w]
    by (simp add: branches_param[OF True] Let_def split: prod.splits)
next
  case n1: False
  show ?thesis
  proof (cases "sdo_index data \<ge> 0x3000 \<and> sdo_index data < 0x4800
              \<and> unat (sdo_subIndex data) < PARAM_LAST env")
    case False
    show ?thesis using keeps_refl[OF w] by (simp add: branches_other[OF n1 False])
  next
    case True
    show ?thesis
    proof (cases "sdo_cmd data = SDO_WRITE")
      case False
      show ?thesis using keeps_refl[OF w] by (simp add: branches_map_other[OF n1 True False])
    next
      case wr: True
      define a where "a = (if sdo_index data AND 0x4000 = 0x4000
                 then AddRecv env s (ucast (sdo_subIndex data)) (ucast (sdo_index data AND 0x7ff))
                        (ucast (sdo_data data AND 0xff)) (ucast (drop_bit 8 (sdo_data data) AND 0xff)) (flt_of_int env (sint (drop_bit 16 (sdo_data data)))) 0
                 else AddSend env s (ucast (sdo_subIndex data)) (ucast (sdo_index data AND 0x7ff))
                        (ucast (sdo_data data AND 0xff)) (ucast (drop_bit 8 (sdo_data data) AND 0xff)) (flt_of_int env (sint (drop_bit 16 (sdo_data data)))) 0)"
      have "\<exists>res s1. a = Some (res, s1) \<and> keeps env s s1"
        unfolding a_def using AddRecv_wf[OF w] AddSend_wf[OF w] by simp
      then obtain res s1 where a: "a = Some (res, s1)" and s1: "keeps env s s1"
        by blast
      have "ProcessSDO_branches env s data = (case res of
             Inr count \<Rightarrow> Some (s1, set_sdo_cmd SDO_WRITE_REPLY data)
           | Inl err \<Rightarrow> Some (s1, set_sdo_data SDO_ERR_RANGE (set_sdo_cmd SDO_ABORT data)))"
        unfolding branches_map_write[OF n1 True wr] a_def[symmetric] a
        by (cases res) simp_all
      then show ?thesis using s1 by (cases res) auto
    qed
  qed
qed

lemma ProcessSDO_branches_invalid_index:
  assumes "\<not> (0x2000 \<le> sdo_index data \<and> sdo_index data \<le> 0x2001)"
    "\<not> (0x3000 \<le> sdo_index data \<and> sdo_index data \<le> 0x47ff)"
  shows "ProcessSDO_branches env s data = Some (s, set_sdo_data SDO_ERR_INVIDX (set_sdo_cmd SDO_ABORT data))"
proof -
  have "(sdo_index data < 0x4800) = (sdo_index data \<le> 0x47ff)"
    by (simp add: word_less_nat_alt word_le_nat_alt) arith
  with assms show ?thesis by (intro branches_other) auto
qed

lemma Add_isSaving_indep:
  "AddSend env (s\<lparr>isSaving := b\<rparr>) p c ob l g off = map_option (\<lambda>(r, s'). (r, s'\<lparr>isSaving := b\<rparr>)) (AddSend env s p c ob l g off)"
  "AddRecv env (s\<lparr>isSaving := b\<rparr>) p c ob l g off = map_option (\<lambda>(r, s'). (r, s'\<lparr>isSaving := b\<rparr>)) (AddRecv env s p c ob l g off)"
  by (auto simp: AddSend_def AddRecv_def split: option.splits)

lemma ProcessSDO_branches_isSaving:
  "ProcessSDO_branches env (s\<lparr>isSaving := b\<rparr>) data =
     map_option (\<lambda>(s', d). (s'\<lparr>isSaving := b\<rparr>, d)) (ProcessSDO_branches env s data)"
proof (cases "sdo_index data \<ge> 0x2000 \<and> sdo_index data \<le> 0x2001
         \<and> unat (sdo_subIndex data) < PARAM_LAST env")
  case True
  show ?thesis
    by (simp add: branches_param[OF True] Let_def split: prod.splits)
next
  case n1: False
  show ?thesis
  proof (cases "sdo_index data \<ge> 0x3000 \<and> sdo_index data < 0x4800
              \<and> unat (sdo_subIndex data) < PARAM_LAST env")
    case False
    show ?thesis by (simp add: branches_other[OF n1 False])
  next
    case True
    show ?thesis
    proof (cases "sdo_cmd data = SDO_WRITE")
      case False
      show ?thesis by (simp add: branches_map_other[OF n1 True False])
    next
      case wr: True
      show ?thesis
        unfolding branches_map_write[OF n1 True wr] Add_isSaving_indep
        by (simp split: option.splits sum.splits)
    qed
  qed
qed

lemma ProcessSDO_isSaving:
  "ProcessSDO env (s\<lparr>isSaving := b\<rparr>) data = map_option (\<lambda>s'. s'\<lparr>isSaving := b\<rparr>) (ProcessSDO env s data)"
  unfolding ProcessSDO_def ProcessSDO_branches_isSaving
  by (cases "ProcessSDO_branches env s data") auto

lemma ProcessSDO_total:
  assumes w: "wf_CanMap env s"
  shows "\<exists>s1 reply. ProcessSDO_branches env s data = Some (s1, reply) \<and>
     ProcessSDO env s data =
       Some (s1\<lparr>canHardware := Send (canHardware s1) (0x580 + ucast (nodeId s)) reply\<rparr>) \<and>
     keeps env s s1"
proof -
  from ProcessSDO_branches_total[OF w, of data] obtain s1 reply where
    b: "ProcessSDO_branches env s data = Some (s1, reply)" and k: "keeps env s s1" by blast
  then show ?thesis by (auto simp: ProcessSDO_def keeps_def)
qed

text \<open>
  C7 (one reply to every request).  On well-formed tables, handling a frame whose
  identifier is \<open>0x600 + nodeId\<close> returns \<^verbatim>\<open>true\<close> and appends exactly one frame to the
  frames sent, with identifier \<open>0x580 + nodeId\<close>; when the index of the request lies
  neither in \<open>0x2000\<close>..\<open>0x2001\<close> nor in \<open>0x3000\<close>..\<open>0x47FF\<close>, that frame has command
  byte \<open>0x80\<close> and data field \<open>0x06020000\<close>, with the index and sub-index of the request.
\<close>

theorem SDO_one_reply:
  assumes "wf_CanMap env s"
  shows "\<exists>s' reply. HandleRx env s (0x600 + ucast (nodeId s)) data = Some (True, s') \<and>
     sent (canHardware s') =
       sent (canHardware s) @ [(0x580 + ucast (nodeId s), fst reply, snd reply)] \<and>
     (\<not> (0x2000 \<le> sdo_index data \<and> sdo_index data \<le> 0x2001) \<and>
      \<not> (0x3000 \<le> sdo_index data \<and> sdo_index data \<le> 0x47ff) \<longrightarrow>
        sdo_cmd reply = 0x80 \<and> sdo_data reply = 0x06020000 \<and>
        sdo_index reply = sdo_index data \<and> sdo_subIndex reply = sdo_subIndex data)"
proof -
  from ProcessSDO_total[OF assms, of data] obtain s1 reply where
    b: "ProcessSDO_branches env s data = Some (s1, reply)"
    and p: "ProcessSDO env s data =
       Some (s1\<lparr>canHardware := Send (canHardware s1) (0x580 + ucast (nodeId s)) reply\<rparr>)"
    and k: "keeps env s s1" by blast
  have "sdo_cmd reply = 0x80 \<and> sdo_data reply = 0x06020000 \<and>
        sdo_index reply = sdo_index data \<and> sdo_subIndex reply = sdo_subIndex data"
    if "\<not> (0x2000 \<le> sdo_index data \<and> sdo_index data \<le> 0x2001)"
       "\<not> (0x3000 \<le> sdo_index data \<and> sdo_index data \<le> 0x47ff)"
    using b ProcessSDO_branches_invalid_index[OF that, of env s]
    by (auto simp: sdo_cmd_set sdo_data_set sdo_index_set sdo_subIndex_set
        SDO_ABORT_def SDO_ERR_INVIDX_def)
  with p k show ?thesis
    by (intro exI[of _ "s1\<lparr>canHardware := Send (canHardware s1) (0x580 + ucast (nodeId s)) reply\<rparr>"]
          exI[of _ reply])
       (simp add: HandleRx_def keeps_def Send_def)
qed

lemma wf_fresh: "wf_CanMap demo fresh_CanMap"
proof -
  have "chainN 50 (snd start_tables) (unat (first c)) 0" if "c \<in> set (fst start_tables)" for c
    using that by (auto simp: start_tables_def intro: chainN.chain_end)
  then show ?thesis
    unfolding wf_CanMap_def wf_pool_def wf_tables_def
    by (auto simp: fresh_CanMap_def demo_def demo_env_def ITEM_UNSET_def)
      (auto simp: start_tables_def)
qed

theorem SDO_one_reply_witness:
  "\<exists>s' reply. HandleRx demo fresh_CanMap 0x601 (0x07100040, 0x00010800) = Some (True, s') \<and>
     sent (canHardware s') = [(0x581, fst reply, snd reply)] \<and>
     sdo_cmd reply = 0x80 \<and> sdo_data reply = 0x06020000 \<and>
     sdo_index reply = 0x1000 \<and> sdo_subIndex reply = 7"
proof -
  have i: "sdo_index (0x07100040, 0x00010800) = 0x1000" "sdo_subIndex (0x07100040, 0x00010800) = 7"
    by (simp_all add: sdo_index_def sdo_subIndex_def)
  have n: "nodeId fresh_CanMap = 1" "sent (canHardware fresh_CanMap) = []"
    by (simp_all add: fresh_CanMap_def)
  from SDO_one_reply[OF wf_fresh, of "(0x07100040, 0x00010800)"]
  show ?thesis unfolding i n by simp
qed

text \<open>
  C9 (requests are served while a save is in progress).  On well-formed tables, with
  the busy flag set, a frame with identifier \<open>0x600 + nodeId\<close> is handled and leaves
  exactly the state that \<^verbatim>\<open>ProcessSDO\<close> produces with the flag clear (apart from the flag
  itself), one reply frame included; a frame with any other identifier is not handled
  and changes nothing.  The witness is a mapping write received during a save: it
  installs a receive binding for parameter 7 on \<open>0x101\<close>.
\<close>

theorem SDO_during_save:
  assumes "wf_CanMap env s"
  shows "(\<exists>s' reply. ProcessSDO env (s\<lparr>isSaving := False\<rparr>) data = Some s' \<and>
      HandleRx env (s\<lparr>isSaving := True\<rparr>) (0x600 + ucast (nodeId s)) data
        = Some (True, s'\<lparr>isSaving := True\<rparr>) \<and>
      sent (canHardware s') =
        sent (canHardware s) @ [(0x580 + ucast (nodeId s), fst reply, snd reply)]) \<and>
    (cid \<noteq> 0x600 + ucast (nodeId s) \<longrightarrow>
      HandleRx env (s\<lparr>isSaving := True\<rparr>) cid data = Some (False, s\<lparr>isSaving := True\<rparr>))"
proof -
  from ProcessSDO_total[OF assms, of data] obtain s1 reply where
    p: "ProcessSDO env s data =
       Some (s1\<lparr>canHardware := Send (canHardware s1) (0x580 + ucast (nodeId s)) reply\<rparr>)"
    and k: "keeps env s s1" by blast
  let ?s' = "s1\<lparr>canHardware := Send (canHardware s1) (0x580 + ucast (nodeId s)) reply,
                isSaving := False\<rparr>"
  have "ProcessSDO env (s\<lparr>isSaving := False\<rparr>) data = Some ?s'"
    by (simp add: ProcessSDO_isSaving p)
  moreover have "HandleRx env (s\<lparr>isSaving := True\<rparr>) (0x600 + ucast (nodeId s)) data
        = Some (True, ?s'\<lparr>isSaving := True\<rparr>)"
    by (simp add: HandleRx_def ProcessSDO_isSaving p)
  moreover have "sent (canHardware ?s') =
        sent (canHardware s) @ [(0x580 + ucast (nodeId s), fst reply, snd reply)]"
    using k by (simp add: keeps_def Send_def)
  ultimately show ?thesis by (auto simp: HandleRx_def)
qed

theorem SDO_during_save_witness:
  "\<exists>s'. HandleRx demo (fresh_CanMap\<lparr>isSaving := True\<rparr>) 0x601 (0x07410140, 0x00010800)
           = Some (True, s') \<and>
     isSaving s' \<and> FindMap demo fresh_CanMap 7 = Some None \<and>
     FindMap demo s' 7 = Some (Some (0x101, 0, 8, 1, True)) \<and>
     sent (canHardware s') = [(0x581, 0x07410123, 0x00010800)] \<and>
     HandleRx demo (fresh_CanMap\<lparr>isSaving := True\<rparr>) 0x101 (0xAB, 0)
       = Some (False, fresh_CanMap\<lparr>isSaving := True\<rparr>)"
proof -
  have n: "nodeId fresh_CanMap = 1" by (simp add: fresh_CanMap_def)
  from SDO_during_save[OF wf_fresh, of "(0x07410140, 0x00010800)" "0x101"]
  obtain s' where h: "HandleRx demo (fresh_CanMap\<lparr>isSaving := True\<rparr>) 0x601 (0x07410140, 0x00010800)
        = Some (True, s'\<lparr>isSaving := True\<rparr>)"
    unfolding n by auto
  have c: "map_option (\<lambda>(h, s'). (h, isSaving s', FindMap demo s' 7, sent (canHardware s')))
       (HandleRx demo (fresh_CanMap\<lparr>isSaving := True\<rparr>) 0x601 (0x07410140, 0x00010800))
       = Some (True, True, Some (Some (0x101, 0, 8, 1, True)), [(0x581, 0x07410123, 0x00010800)])"
    by code_simp
  have f: "FindMap demo fresh_CanMap 7 = Some None" by code_simp
  have m': "HandleRx demo (fresh_CanMap\<lparr>isSaving := True\<rparr>) 0x101 (0xAB, 0)
       = Some (False, fresh_CanMap\<lparr>isSaving := True\<rparr>)"
    by (simp add: HandleRx_def n)
  from c h f m' show ?thesis by simp
qed

section \<open>The send sweep\<close>

lemma and_shift_mask: "(x :: 32 word) AND (push_bit n 1 - 1) = take_bit n x"
  by (simp add: take_bit_eq_mask mask_eq_exp_minus_1)

lemma gt31: "((31 :: 8 word) < b) = (32 \<le> unat b)"
  by (auto simp: word_less_nat_alt)

lemma forEachPosMap_Nil:
  "forEachPosMap pool c = Some [] \<Longrightarrow> c < length pool \<and> nxt (pool ! c) = ITEM_UNSET"
  by (subst (asm) forEachPosMap.simps) (auto split: if_splits Option.bind_splits)

lemma forEachPosMap_Cons:
  "forEachPosMap pool c = Some (i # rest) \<Longrightarrow>
     i = c \<and> c < length pool \<and> nxt (pool ! c) \<noteq> ITEM_UNSET \<and>
     forEachPosMap pool (unat (nxt (pool ! c))) = Some rest"
  by (subst (asm) forEachPosMap.simps) (auto split: if_splits Option.bind_splits)

lemma SendChain_step:
  assumes "c < length pool" "nxt (pool ! c) \<noteq> ITEM_UNSET"
  shows "SendChain env ps False pool c data =
     SendChain env ps False pool (unat (nxt (pool ! c)))
       (or_into data (offsetBits (pool ! c)) (field_sent env ps (pool ! c)))"
proof -
  have nl: "\<not> length pool \<le> c" using assms(1) by simp
  show ?thesis
    by (subst SendChain.simps)
      (simp only: nl assms(2) if_False Let_def and_shift_mask gt31 or_into_def field_sent_def)
qed

lemma SendChain_stop:
  assumes "c < length pool" "nxt (pool ! c) = ITEM_UNSET"
  shows "SendChain env ps saving pool c data = Some (Some data)"
  using assms by (subst SendChain.simps) simp

text \<open>
  C4, as the code has it.  On a chain that \<^verbatim>\<open>forEachPosMap\<close> walks through the slots
  \<open>slots\<close>, the send sweep (busy flag clear) ORs into the two data words, for each slot in
  turn, the field computed by reading the parameter as a float, multiplying by the gain,
  then adding the bias, truncating to an integer and keeping \<open>numBits\<close> bits; the field
  goes into the high word when the bit offset is 32 or more and into the low word
  otherwise.
\<close>

theorem SendChain_pack:
  assumes "forEachPosMap pool c = Some slots"
  shows "SendChain env ps False pool c data =
     Some (Some (foldl (\<lambda>d i. or_into d (offsetBits (pool ! i)) (field_sent env ps (pool ! i)))
                   data slots))"
  using assms
proof (induction slots arbitrary: c data)
  case Nil
  from forEachPosMap_Nil[OF Nil] show ?case
    by (simp add: SendChain_stop)
next
  case (Cons i rest)
  from forEachPosMap_Cons[OF Cons.prems] have
    c: "i = c" "c < length pool" "nxt (pool ! c) \<noteq> ITEM_UNSET"
    and r: "forEachPosMap pool (unat (nxt (pool ! c))) = Some rest" by auto
  show ?case
    by (simp add: SendChain_step[OF c(2,3)] Cons.IH[OF r] c(1))
qed

theorem SendChain_pack_witness:
  "forEachPosMap (snd hole_table) 1 = Some [1] \<and>
   SendChain demo [(8, 1)] False (snd hole_table) 1 (0, 0) = Some (Some (1, 0))"
proof -
  have f: "forEachPosMap (snd hole_table) 1 = Some [1]" by code_simp
  have v: "foldl (\<lambda>d i. or_into d (offsetBits (snd hole_table ! i))
              (field_sent demo [(8, 1)] (snd hole_table ! i))) (0, 0) [1] = (1, 0)"
    by code_simp
  from SendChain_pack[OF f, of demo "[(8, 1)]" "(0, 0)"] f v show ?thesis by simp
qed

text \<open>
  C4 as stated fails: with parameter 7 at the value 1, a send binding with gain 2 and
  bias 1 at bit 0, width 8, makes the sweep send the low word 3 (1 times 2, plus 1);
  adding the bias first and multiplying then gives 4.
\<close>

theorem pack_order_counterexample:
  "do { (res, s1) \<leftarrow> AddSend demo (fresh_CanMap\<lparr>params := [(7, 1)]\<rparr>) 7 0x100 0 8 2 1;
        s2 \<leftarrow> SendAll demo s1;
        Some (res, Param_GetFloat demo 7 (params s1), sent (canHardware s2),
              or_into (0, 0) 0 (field_claimed demo (params s1) (canPosMap s1 ! 0))) }
   = Some (Inr 1, 1, [(0x100, 3, 0)], (4, 0))"
  by code_simp

section \<open>Registration of received identifiers\<close>

lemma ofs_rejected:
  "AddRecv env s param 0x201 64 8 g offs =
     Some (Inl CAN_ERR_INVALID_OFS,
           s\<lparr>canHardware := snd (RegisterUserMessage env (canHardware s) 0x201)\<rparr>)"
  by (simp add: AddRecv_def Add_def)

text \<open>
  C10, as the code has it.  \<^verbatim>\<open>AddRecv\<close> calls \<^verbatim>\<open>RegisterUserMessage\<close> with the identifier
  whatever \<^verbatim>\<open>Add\<close> returns: with an argument over its limit it returns an error code and
  the only change to the object is that call, and whatever \<^verbatim>\<open>AddRecv\<close> returns, the hardware
  state is the one \<^verbatim>\<open>RegisterUserMessage\<close> leaves.  That call registers the identifier
  (appends it to the list and configures the filters) when the list is not full and does
  not hold the identifier yet; when the list is full or holds it already, the hardware
  state is unchanged.
\<close>

theorem AddRecv_registers:
  "(cid > 0x1fffffff \<or> offsBits > 63 \<or> len > 32 \<longrightarrow>
      (\<exists>err. AddRecv env s param cid offsBits len g offs =
         Some (Inl err, s\<lparr>canHardware := snd (RegisterUserMessage env (canHardware s) cid)\<rparr>))) \<and>
   (\<forall>res s'. AddRecv env s param cid offsBits len g offs = Some (res, s') \<longrightarrow>
      canHardware s' = snd (RegisterUserMessage env (canHardware s) cid) \<and>
      (nextUserMessageIndex (canHardware s) < MAX_USER_MESSAGES env \<and>
       cid \<notin> set (take (nextUserMessageIndex (canHardware s)) (userIds (canHardware s))) \<longrightarrow>
         userIds (canHardware s') =
           (userIds (canHardware s))[nextUserMessageIndex (canHardware s) := cid] \<and>
         nextUserMessageIndex (canHardware s') = nextUserMessageIndex (canHardware s) + 1 \<and>
         filterConfigs (canHardware s') = filterConfigs (canHardware s) + 1) \<and>
      (MAX_USER_MESSAGES env \<le> nextUserMessageIndex (canHardware s) \<or>
       cid \<in> set (take (nextUserMessageIndex (canHardware s)) (userIds (canHardware s))) \<longrightarrow>
         canHardware s' = canHardware s))"
  by (auto simp: AddRecv_def Add_def RegisterUserMessage_def ConfigureFilters_def
      split: option.splits)

theorem AddRecv_registers_witness:
  "(\<exists>s1. AddRecv demo fresh_CanMap 8 0x201 64 8 1 0 = Some (Inl CAN_ERR_INVALID_OFS, s1) \<and>
      userIds (canHardware s1) = 0x201 # replicate 9 0 \<and>
      nextUserMessageIndex (canHardware s1) = 1 \<and>
      filterConfigs (canHardware s1) = 1 \<and>
      (\<exists>s2. AddRecv demo s1 8 0x201 64 8 1 0 = Some (Inl CAN_ERR_INVALID_OFS, s2) \<and>
         canHardware s2 = canHardware s1))"
proof -
  note r = AddRecv_registers[where env = demo and g = 1 and offs = 0 and cid = "0x201"
      and offsBits = 64 and len = 8 and param = 8]
  define s1 where "s1 = fresh_CanMap\<lparr>canHardware :=
      snd (RegisterUserMessage demo (canHardware fresh_CanMap) 0x201)\<rparr>"
  have s1: "AddRecv demo fresh_CanMap 8 0x201 64 8 1 0 = Some (Inl CAN_ERR_INVALID_OFS, s1)"
    unfolding s1_def by (rule ofs_rejected)
  have f1: "nextUserMessageIndex (canHardware fresh_CanMap) < MAX_USER_MESSAGES demo"
    by (simp add: fresh_CanMap_def demo_def demo_env_def)
  have f2: "0x201 \<notin> set (take (nextUserMessageIndex (canHardware fresh_CanMap))
      (userIds (canHardware fresh_CanMap)))"
    by (simp add: fresh_CanMap_def)
  have a: "userIds (canHardware s1) =
           (userIds (canHardware fresh_CanMap))[nextUserMessageIndex (canHardware fresh_CanMap) := 0x201] \<and>
         nextUserMessageIndex (canHardware s1) = nextUserMessageIndex (canHardware fresh_CanMap) + 1 \<and>
         filterConfigs (canHardware s1) = filterConfigs (canHardware fresh_CanMap) + 1"
    using r[where s = fresh_CanMap, THEN conjunct2, rule_format, OF s1, THEN conjunct2,
        THEN conjunct1, rule_format, OF conjI[OF f1 f2]] .
  have v: "(userIds (canHardware fresh_CanMap))[nextUserMessageIndex (canHardware fresh_CanMap) := 0x201]
      = 0x201 # replicate 9 0"
    "nextUserMessageIndex (canHardware fresh_CanMap) + 1 = 1"
    "filterConfigs (canHardware fresh_CanMap) + 1 = 1"
    unfolding fresh_CanMap_def by code_simp+
  have h1: "userIds (canHardware s1) = 0x201 # replicate 9 0 \<and>
    nextUserMessageIndex (canHardware s1) = 1 \<and> filterConfigs (canHardware s1) = 1"
    using a unfolding v .
  define s2 where "s2 = s1\<lparr>canHardware :=
      snd (RegisterUserMessage demo (canHardware s1) 0x201)\<rparr>"
  have s2: "AddRecv demo s1 8 0x201 64 8 1 0 = Some (Inl CAN_ERR_INVALID_OFS, s2)"
    unfolding s2_def by (rule ofs_rejected)
  have m: "0x201 \<in> set (take (nextUserMessageIndex (canHardware s1)) (userIds (canHardware s1)))"
    using h1 by simp
  have h2: "canHardware s2 = canHardware s1"
    using r[where s = s1, THEN conjunct2, rule_format, OF s2, THEN conjunct2,
        THEN conjunct2, rule_format, OF disjI2[OF m]] .
  from s1 h1 s2 h2 show ?thesis by blast
qed

text \<open>
  C10 as stated fails.  A receive binding on \<open>0x201\<close> registers \<open>0x201\<close>; a second
  \<^verbatim>\<open>AddRecv\<close> on \<open>0x201\<close> with bit offset 64 fails with the invalid-offset code and leaves
  the whole object as it was.  After ten receive bindings on ten identifiers the list
  holds ten identifiers; an eleventh \<^verbatim>\<open>AddRecv\<close>, on \<open>0x777\<close>, fails with the max-messages
  code and leaves the whole object as it was: \<open>0x777\<close> is not registered.
\<close>

theorem AddRecv_no_registration:
  "do { (res1, s1) \<leftarrow> AddRecv demo fresh_CanMap 7 0x201 0 8 1 0;
        (res2, s2) \<leftarrow> AddRecv demo s1 8 0x201 64 8 1 0;
        Some (res1, take 1 (userIds (canHardware s1)), res2, s2 = s1) }
     = Some (Inr 1, [0x201], Inl CAN_ERR_INVALID_OFS, True) \<and>
   do { s10 \<leftarrow> ten_AddRecv;
        (res, s11) \<leftarrow> AddRecv demo s10 7 0x777 0 8 1 0;
        Some (nextUserMessageIndex (canHardware s10), 0x777 \<in> set (userIds (canHardware s10)),
              res, s11 = s10) }
     = Some (10, False, Inl CAN_ERR_MAXMESSAGES, True)"
  by code_simp

section \<open>Loading a stored image\<close>

text \<open>
  C8 (a checksum mismatch loads nothing).  When the stored checksum word differs from
  the checksum of the three stored regions, \<^verbatim>\<open>LoadFromFlash\<close> returns 0 and leaves the object
  as it was, and the constructor ends with the tables as \<^verbatim>\<open>ClearMap\<close> left them: every
  head link is \<^verbatim>\<open>MAX_ITEMS\<close>, every pool link is \<^verbatim>\<open>ITEM_UNSET\<close>, and (\<^verbatim>\<open>MAX_ITEMS\<close> being a
  byte value) no iteration visits any entry.
\<close>

theorem LoadFromFlash_mismatch:
  assumes "flashCrc flash \<noteq>
             crc_calculate_block env (flashSendMap flash, flashRecvMap flash, flashPosMap flash)"
  shows "LoadFromFlash env flash s = Some (0, s) \<and>
    (\<exists>s'. CanMap_CanMap env flash raw = Some s' \<and>
       length (canSendMap s') = length (canSendMap raw) \<and>
       length (canRecvMap s') = length (canRecvMap raw) \<and>
       length (canPosMap s') = length (canPosMap raw) \<and>
       (\<forall>i. i < MAX_MESSAGES env \<and> i < length (canSendMap raw) \<longrightarrow>
          first (canSendMap s' ! i) = of_nat (MAX_ITEMS env)) \<and>
       (\<forall>i. i < MAX_MESSAGES env \<and> i < length (canRecvMap raw) \<longrightarrow>
          first (canRecvMap s' ! i) = of_nat (MAX_ITEMS env)) \<and>
       (\<forall>i. i \<le> MAX_ITEMS env \<and> i < length (canPosMap raw) \<longrightarrow>
          nxt (canPosMap s' ! i) = ITEM_UNSET) \<and>
       (MAX_ITEMS env < 256 \<longrightarrow>
          forEachCanMap env (canSendMap s') = [] \<and> forEachCanMap env (canRecvMap s') = []))"
proof -
  have l: "LoadFromFlash env flash s = Some (0, s)" for s
    using assms by (simp add: LoadFromFlash_def Let_def)
  have e: "forEachCanMap env (map (\<lambda>c. c\<lparr>first := of_nat (MAX_ITEMS env)\<rparr>) (take (MAX_MESSAGES env) m)
           @ drop (MAX_MESSAGES env) m) = []" if "MAX_ITEMS env < 256" for m :: "CANIDMAP list"
  proof (cases "take (MAX_MESSAGES env) m")
    case Nil
    then show ?thesis by (auto simp: forEachCanMap_def)
  next
    case (Cons c cs)
    have u: "unat (of_nat (MAX_ITEMS env) :: 8 word) = MAX_ITEMS env"
      using that by (simp add: unat_of_nat)
    show ?thesis
      using Cons u by (cases "MAX_MESSAGES env") (auto simp: forEachCanMap_def enumerate_simps)
  qed
  show ?thesis
    unfolding l CanMap_CanMap_def Let_def
    by (auto simp: ClearMap_def HandleClear_def e nth_append)
qed

theorem LoadFromFlash_mismatch_witness:
  "LoadFromFlash demo blank_flash fresh_CanMap = Some (0, fresh_CanMap) \<and>
   CanMap_CanMap demo blank_flash raw_CanMap = Some fresh_CanMap \<and>
   forEachCanMap demo (canSendMap fresh_CanMap) = [] \<and>
   forEachCanMap demo (canRecvMap fresh_CanMap) = []"
proof -
  have h: "flashCrc blank_flash \<noteq> crc_calculate_block demo
      (flashSendMap blank_flash, flashRecvMap blank_flash, flashPosMap blank_flash)"
    by (simp add: blank_flash_def demo_def demo_env_def)
  have c: "CanMap_CanMap demo blank_flash raw_CanMap = Some fresh_CanMap" by code_simp
  have m: "MAX_ITEMS demo < 256" by (simp add: demo_def demo_env_def)
  from LoadFromFlash_mismatch[OF h, of fresh_CanMap raw_CanMap] c m
  show ?thesis by auto
qed

section \<open>Removal keeps the tables well-formed\<close>

lemma chainN_update_above:
  assumes "chainN mi pool n k" "chainN mi pool l kl" "k < kl"
  shows "chainN mi (pool[l := x]) n k"
  using assms
proof (induction rule: chainN.induct)
  case chain_end
  then show ?case by (simp add: chainN.chain_end)
next
  case (chain_step i k)
  have "i \<noteq> l"
  proof
    assume "i = l"
    with chainN.chain_step[OF chain_step.hyps] chain_step.prems(1) have "Suc k = kl"
      by (auto dest: chainN_unique)
    with chain_step.prems(2) show False by simp
  qed
  then have "pool[l := x] ! i = pool ! i" by simp
  moreover have "chainN mi (pool[l := x]) (unat (nxt (pool ! i))) k"
    using chain_step.IH chain_step.prems by simp
  ultimately show ?case
    using chainN.chain_step[of i mi "pool[l := x]" k] chain_step.hyps(1,2) by simp
qed

lemma chainN_redirect:
  assumes l: "l \<noteq> mi" "l < length pool"
    and n: "chainN mi pool n k" and lk: "chainN mi pool l kl" "k < kl"
    and x: "unat (nxt x) = n"
    and c: "chainN mi pool i j"
  shows "\<exists>j'. chainN mi (pool[l := x]) i j'"
  using c
proof (induction rule: chainN.induct)
  case chain_end
  then show ?case by (auto intro: chainN.chain_end)
next
  case (chain_step i j)
  show ?case
  proof (cases "i = l")
    case True
    have "chainN mi (pool[l := x]) n k" using n lk by (rule chainN_update_above)
    then have "chainN mi (pool[l := x]) (unat (nxt (pool[l := x] ! l))) k" using l x by simp
    from chainN.chain_step[OF l(1) _ this] True l show ?thesis by auto
  next
    case False
    then have e: "pool[l := x] ! i = pool ! i" by simp
    from chain_step.IH obtain j' where "chainN mi (pool[l := x]) (unat (nxt (pool ! i))) j'" ..
    with chainN.chain_step[of i mi "pool[l := x]" j'] chain_step.hyps(1,2) e
    show ?thesis by auto
  qed
qed

lemma RemoveFromChain_wf:
  assumes "chainN (MAX_ITEMS env) pool cur k" "wf_pool env pool"
    and "case lastp of None \<Rightarrow> True
         | Some l \<Rightarrow> l \<noteq> MAX_ITEMS env \<and> l < length pool \<and> unat (nxt (pool ! l)) = cur"
    and "e < length m"
  shows "\<exists>m' pool'. RemoveFromChain param e lastp cur (m, pool) = Some (m', pool') \<and>
     wf_pool env pool' \<and> length m' = length m \<and>
     (\<forall>i j. chainN (MAX_ITEMS env) pool i j \<longrightarrow> (\<exists>j'. chainN (MAX_ITEMS env) pool' i j')) \<and>
     (\<forall>i. i \<noteq> e \<longrightarrow> m' ! i = m ! i) \<and>
     (first (m' ! e) = first (m ! e) \<or> (\<exists>j. chainN (MAX_ITEMS env) pool' (unat (first (m' ! e))) j))"
  using assms
proof (induction k arbitrary: cur lastp m pool rule: nat_induct)
  case 0
  then have "cur = MAX_ITEMS env" by (auto elim: chainN.cases)
  with 0 show ?case
    by (subst RemoveFromChain.simps) (auto simp: wf_pool_def)
next
  case (Suc k)
  let ?mi = "MAX_ITEMS env"
  let ?n = "unat (nxt (pool ! cur))"
  from Suc.prems(1) have cur: "cur \<noteq> ?mi" "cur < length pool" and nk: "chainN ?mi pool ?n k"
    by (auto elim: chainN.cases)
  have wp: "?mi < 255" "length pool = ?mi + 1" using Suc.prems(2) by (auto simp: wf_pool_def)
  have nu: "nxt (pool ! cur) \<noteq> ITEM_UNSET"
    using free_not_on_chain[OF Suc.prems(1) cur(1)] wp by simp
  define st' where "st' = (if mapParam (pool ! cur) = param then
               (case lastp of
                  Some l \<Rightarrow> (m, pool[l := (pool ! l)\<lparr>nxt := nxt (pool ! cur)\<rparr>])
                | None \<Rightarrow>
                    (m[e := (m ! e)\<lparr>first := nxt (pool ! cur)\<rparr>], pool))
             else (m, pool))"
  obtain m1 pool1 where st: "st' = (m1, pool1)" by (cases st')
  have unf: "RemoveFromChain param e lastp cur (m, pool) =
      RemoveFromChain param e (Some cur) (unat (nxt (pool1 ! cur))) (m1, pool1)"
    using cur nu st
    by (subst RemoveFromChain.simps) (simp add: st'_def[symmetric] Let_def)
  have step: "wf_pool env pool1 \<and> length m1 = length m \<and>
      unat (nxt (pool1 ! cur)) = ?n \<and> chainN ?mi pool1 ?n k \<and> length pool1 = length pool \<and>
      (\<forall>i j. chainN ?mi pool i j \<longrightarrow> (\<exists>j'. chainN ?mi pool1 i j')) \<and>
      (\<forall>i. i \<noteq> e \<longrightarrow> m1 ! i = m ! i) \<and>
      (first (m1 ! e) = first (m ! e) \<or> unat (first (m1 ! e)) = ?n)"
  proof (cases "mapParam (pool ! cur) = param")
    case False
    then have "m1 = m" "pool1 = pool" using st by (auto simp: st'_def)
    then show ?thesis using Suc.prems(2) nk by auto
  next
    case True
    show ?thesis
    proof (cases lastp)
      case None
      then have "m1 = m[e := (m ! e)\<lparr>first := nxt (pool ! cur)\<rparr>]" "pool1 = pool"
        using st True by (auto simp: st'_def)
      then show ?thesis using Suc.prems(2,4) nk by auto
    next
      case (Some l)
      then have e1: "m1 = m" "pool1 = pool[l := (pool ! l)\<lparr>nxt := nxt (pool ! cur)\<rparr>]"
        using st True by (auto simp: st'_def)
      from Suc.prems(3) Some have l: "l \<noteq> ?mi" "l < length pool" "unat (nxt (pool ! l)) = cur"
        by auto
      have lk: "chainN ?mi pool l (Suc (Suc k))"
        using chainN.chain_step[OF l(1,2)] l(3) Suc.prems(1) by simp
      have "cur \<noteq> l"
      proof
        assume "cur = l"
        with chainN_unique[OF lk, of "Suc k"] Suc.prems(1) show False by simp
      qed
      then have c1: "pool1 ! cur = pool ! cur" by (simp add: e1)
      have n1: "chainN ?mi pool1 ?n k"
        unfolding e1 by (rule chainN_update_above[OF nk lk]) simp
      have pres: "\<exists>j'. chainN ?mi pool1 i j'" if "chainN ?mi pool i j" for i j
        unfolding e1
        by (rule chainN_redirect[OF l(1,2) nk lk _ _ that]) simp_all
      have "wf_pool env pool1" using Suc.prems(2) l(1) by (simp add: wf_pool_def e1)
      with c1 n1 pres e1 show ?thesis by auto
    qed
  qed
  have lastq: "case Some cur of None \<Rightarrow> True
         | Some l \<Rightarrow> l \<noteq> ?mi \<and> l < length pool1 \<and> unat (nxt (pool1 ! l)) = unat (nxt (pool1 ! cur))"
    using cur step by simp
  have ch: "chainN ?mi pool1 (unat (nxt (pool1 ! cur))) k" using step by simp
  have e1: "e < length m1" using step Suc.prems(4) by simp
  from Suc.IH[OF ch _ lastq e1, of] step obtain m' pool' where
    r: "RemoveFromChain param e (Some cur) (unat (nxt (pool1 ! cur))) (m1, pool1) = Some (m', pool')"
    and w: "wf_pool env pool'" "length m' = length m1"
    and p: "\<forall>i j. chainN ?mi pool1 i j \<longrightarrow> (\<exists>j'. chainN ?mi pool' i j')"
    and o: "\<forall>i. i \<noteq> e \<longrightarrow> m' ! i = m1 ! i"
    and f: "first (m' ! e) = first (m1 ! e) \<or> (\<exists>j. chainN ?mi pool' (unat (first (m' ! e))) j)"
    by blast
  have p': "\<forall>i j. chainN ?mi pool i j \<longrightarrow> (\<exists>j'. chainN ?mi pool' i j')"
    using step p by blast
  have f': "first (m' ! e) = first (m ! e) \<or> (\<exists>j. chainN ?mi pool' (unat (first (m' ! e))) j)"
    using f step p by metis
  from unf r w p' o f' step show ?case by auto
qed

lemma RemoveFromMaps_wf:
  assumes "wf_pool env pool" "wf_tables env m pool"
  shows "\<exists>m' pool'. RemoveFromMaps env param i (m, pool) = Some (m', pool') \<and>
     wf_pool env pool' \<and> wf_tables env m' pool' \<and>
     (\<forall>i j. chainN (MAX_ITEMS env) pool i j \<longrightarrow> (\<exists>j'. chainN (MAX_ITEMS env) pool' i j'))"
  using assms
proof (induction "MAX_MESSAGES env - i" arbitrary: i m pool)
  case 0
  then show ?case by (subst RemoveFromMaps.simps) auto
next
  case (Suc d)
  let ?mi = "MAX_ITEMS env"
  show ?case
  proof (cases "i < MAX_MESSAGES env \<and> unat (first (m ! i)) \<noteq> ?mi")
    case False
    then show ?thesis using Suc.prems by (subst RemoveFromMaps.simps) auto
  next
    case True
    have il: "i < length m" using True Suc.prems(2) by (simp add: wf_tables_def)
    from wf_tables_chain[OF Suc.prems(2) il] obtain k where
      k: "chainN ?mi pool (unat (first (m ! i))) k" ..
    from RemoveFromChain_wf[OF k Suc.prems(1) _ il, of None param]
    obtain m1 pool1 where
      r: "RemoveFromChain param i None (unat (first (m ! i))) (m, pool) = Some (m1, pool1)"
      and w: "wf_pool env pool1" "length m1 = length m"
      and p: "\<forall>a j. chainN ?mi pool a j \<longrightarrow> (\<exists>j'. chainN ?mi pool1 a j')"
      and o: "\<forall>a. a \<noteq> i \<longrightarrow> m1 ! a = m ! a"
      and f: "first (m1 ! i) = first (m ! i) \<or> (\<exists>j. chainN ?mi pool1 (unat (first (m1 ! i))) j)"
      by auto
    have wt1: "wf_tables env m1 pool1"
      unfolding wf_tables_def
    proof (intro conjI ballI)
      show "length m1 = MAX_MESSAGES env" using w Suc.prems(2) by (simp add: wf_tables_def)
      fix c assume "c \<in> set m1"
      then obtain a where a: "a < length m1" "c = m1 ! a" by (auto simp: in_set_conv_nth)
      show "\<exists>k. chainN ?mi pool1 (unat (first c)) k"
      proof (cases "a = i")
        case True
        then show ?thesis using f a wf_tables_chain[OF Suc.prems(2) il] p by metis
      next
        case False
        then have "c = m ! a" using o a by simp
        then show ?thesis using wf_tables_chain[OF Suc.prems(2), of a] a w p by metis
      qed
    qed
    have d: "d = MAX_MESSAGES env - (i + 1)" using Suc.hyps(2) by simp
    from Suc.hyps(1)[OF d w(1) wt1] obtain m' pool' where
      r2: "RemoveFromMaps env param (i + 1) (m1, pool1) = Some (m', pool')"
      and w2: "wf_pool env pool'" "wf_tables env m' pool'"
      and p2: "\<forall>a j. chainN ?mi pool1 a j \<longrightarrow> (\<exists>j'. chainN ?mi pool' a j')"
      by blast
    have "RemoveFromMaps env param i (m, pool) = Some (m', pool')"
      using True r r2 by (subst RemoveFromMaps.simps) simp
    moreover have "\<forall>a j. chainN ?mi pool a j \<longrightarrow> (\<exists>j'. chainN ?mi pool' a j')"
      using p p2 by blast
    ultimately show ?thesis using w2 by blast
  qed
qed

lemma Remove_wf:
  assumes "wf_CanMap env s"
  shows "\<exists>s'. Remove env s param = Some (0, s') \<and> keeps env s s'"
proof -
  from assms have wp: "wf_pool env (canPosMap s)" and wt: "wf_tables env (canSendMap s) (canPosMap s)"
    and wr: "wf_tables env (canRecvMap s) (canPosMap s)"
    by (auto simp: wf_CanMap_def)
  from RemoveFromMaps_wf[OF wp wt, of param 0] obtain m1 pool1 where
    r1: "RemoveFromMaps env param 0 (canSendMap s, canPosMap s) = Some (m1, pool1)"
    and w1: "wf_pool env pool1" "wf_tables env m1 pool1"
    and p1: "\<And>i j. chainN (MAX_ITEMS env) (canPosMap s) i j \<Longrightarrow> \<exists>j'. chainN (MAX_ITEMS env) pool1 i j'"
    by blast
  have wr1: "wf_tables env (canRecvMap s) pool1" using wr p1 by (rule wf_tables_mono)
  from RemoveFromMaps_wf[OF w1(1) wr1, of param 0] obtain m2 pool2 where
    r2: "RemoveFromMaps env param 0 (canRecvMap s, pool1) = Some (m2, pool2)"
    and w2: "wf_pool env pool2" "wf_tables env m2 pool2"
    and p2: "\<And>i j. chainN (MAX_ITEMS env) pool1 i j \<Longrightarrow> \<exists>j'. chainN (MAX_ITEMS env) pool2 i j'"
    by blast
  have "wf_tables env m1 pool2" using w1(2) p2 by (rule wf_tables_mono)
  with r1 r2 w2 show ?thesis
    by (simp add: Remove_def RemoveFromMap_def keeps_def wf_CanMap_def)
qed

section \<open>Every reachable state is well-formed\<close>

lemma constructed_wf:
  assumes s: "sized env raw"
    and c: "flashCrc flash \<noteq>
       crc_calculate_block env (flashSendMap flash, flashRecvMap flash, flashPosMap flash)"
  shows "\<exists>s. CanMap_CanMap env flash raw = Some s \<and> wf_CanMap env s"
proof -
  let ?mi = "MAX_ITEMS env"
  have u: "unat (of_nat ?mi :: 8 word) = ?mi" using s by (simp add: sized_def unat_of_nat)
  have l: "LoadFromFlash env flash s = Some (0, s)" for s
    using c by (simp add: LoadFromFlash_def Let_def)
  have t: "wf_tables env (map (\<lambda>c. c\<lparr>first := of_nat ?mi\<rparr>) m) pool"
    if "length m = MAX_MESSAGES env" for m :: "CANIDMAP list" and pool :: "'a CANPOS list"
    using that u by (auto simp: wf_tables_def intro: chainN.chain_end)
  show ?thesis
    using s unfolding l CanMap_CanMap_def Let_def
    by (simp add: ClearMap_def HandleClear_def sized_def wf_CanMap_def wf_pool_def t)
qed

lemma HandleRx_wf:
  assumes "wf_CanMap env s" "HandleRx env s cid data = Some (handled, s')"
  shows "wf_CanMap env s'"
proof (cases "cid = 0x600 + ucast (nodeId s)")
  case True
  from ProcessSDO_total[OF assms(1), of data] assms(2) True show ?thesis
    by (auto simp: HandleRx_def keeps_def)
next
  case False
  with assms show ?thesis
    by (auto simp: HandleRx_def split: if_splits option.splits)
qed

lemma reachable_wf: "reachable env s \<Longrightarrow> wf_CanMap env s"
proof (induction rule: reachable.induct)
  case (constructed raw flash s)
  from constructed_wf[OF constructed(1,2)] constructed(3) show ?case by auto
next
  case (after_AddSend s param cid offsBits len g offs res s')
  from AddSend_wf[OF after_AddSend.IH, of param cid offsBits len g offs] after_AddSend.hyps(2)
  show ?case by (auto simp: keeps_def)
next
  case (after_AddRecv s param cid offsBits len g offs res s')
  from AddRecv_wf[OF after_AddRecv.IH, of param cid offsBits len g offs] after_AddRecv.hyps(2)
  show ?case by (auto simp: keeps_def)
next
  case (after_Remove s param removed s')
  from Remove_wf[OF after_Remove.IH, of param] after_Remove.hyps(2)
  show ?case by (auto simp: keeps_def)
next
  case (after_HandleRx s cid data handled s')
  then show ?case by (auto intro: HandleRx_wf)
next
  case (after_SendAll s s')
  then show ?case by (auto simp: SendAll_def)
next
  case (busy_flag s b)
  then show ?case by simp
qed

section \<open>Removal\<close>

lemma RemoveFromMap_returns_0: "RemoveFromMap env st param = Some (removed, st') \<Longrightarrow> removed = 0"
  by (auto simp: RemoveFromMap_def)

lemma Remove_returns_0: "Remove env s param = Some (removed, s') \<Longrightarrow> removed = 0"
  by (auto simp: Remove_def RemoveFromMap_def split: option.splits)

text \<open>
  C1 (the count returned by \<^verbatim>\<open>Remove\<close>).  The comment of \<^verbatim>\<open>Remove\<close> promises the number of
  removed items.  On a freshly constructed object, one send binding for parameter 7 on
  identifier \<open>0x100\<close> is added; \<^verbatim>\<open>FindMap\<close> finds it; \<^verbatim>\<open>Remove\<close> of parameter 7 unlinks it
  (\<^verbatim>\<open>FindMap\<close> no longer finds it) and returns 0, not 1.
\<close>

theorem Remove_count_failing_input:
  "do { s0 \<leftarrow> CanMap_CanMap demo blank_flash raw_CanMap;
        (res, s1) \<leftarrow> AddSend demo s0 7 0x100 0 8 1 0;
        before \<leftarrow> FindMap demo s1 7;
        (removed, s2) \<leftarrow> Remove demo s1 7;
        after \<leftarrow> FindMap demo s2 7;
        Some (res, before, removed, after) }
   = Some (Inr 1, Some (0x100, 0, 8, 1, False), 0, None)"
  by code_simp

text \<open>
  C2 (after \<^verbatim>\<open>Remove\<close> the parameter is not found and its slots are free).  Two send
  bindings for parameter 7 are added to identifier \<open>0x100\<close>, at bit 0 and at bit 8; they
  take pool slots 0 and 1.  After \<^verbatim>\<open>Remove\<close> of parameter 7, \<^verbatim>\<open>FindMap\<close> still finds
  parameter 7 (the binding at bit 8), the links of slots 0 and 1 are both 50
  (\<^verbatim>\<open>MAX_ITEMS\<close>), not \<^verbatim>\<open>0xff\<close>, and the free-slot scan of \<^verbatim>\<open>Add\<close> passes both and stops
  at slot 2.
\<close>

theorem Remove_leaves_binding_failing_input:
  "do { s0 \<leftarrow> CanMap_CanMap demo blank_flash raw_CanMap;
        (res1, s1) \<leftarrow> AddSend demo s0 7 0x100 0 8 1 0;
        (res2, s2) \<leftarrow> AddSend demo s1 7 0x100 8 8 1 0;
        (removed, s3) \<leftarrow> Remove demo s2 7;
        after \<leftarrow> FindMap demo s3 7;
        Some (res1, res2, after, map nxt (take 2 (canPosMap s3)),
              findFreeIndex demo (canPosMap s3)) }
   = Some (Inr 1, Inr 1, Some (0x100, 8, 8, 1, False), [50, 50], 2)"
  by code_simp

section \<open>The receive scenario\<close>

text \<open>
  C6 (the scenario on identifier \<open>0x201\<close>).  For a parameter on the floating path and for
  one on the fixed-point path of the store: on a freshly constructed object parameter 7
  reads 0; \<^verbatim>\<open>AddRecv\<close> of parameter 7 on \<open>0x201\<close>, bit 0, width 8, gain 1, bias 0 succeeds;
  the frame \<open>0x201\<close> with low word \<open>0xAB\<close> is handled and parameter 7 then reads 171;
  after \<^verbatim>\<open>Remove\<close> of parameter 7 the same frame is not handled and the store is unchanged.
\<close>

theorem scenario_0x201:
  "map (\<lambda>isp.
     do { s0 \<leftarrow> CanMap_CanMap (demo_env isp (\<lambda>p v. True)) blank_flash raw_CanMap;
          (res, s1) \<leftarrow> AddRecv (demo_env isp (\<lambda>p v. True)) s0 7 0x201 0 8 1 0;
          (handled2, s2) \<leftarrow> HandleRx (demo_env isp (\<lambda>p v. True)) s1 0x201 (0x000000AB, 0);
          (removed, s3) \<leftarrow> Remove (demo_env isp (\<lambda>p v. True)) s2 7;
          (handled4, s4) \<leftarrow> HandleRx (demo_env isp (\<lambda>p v. True)) s3 0x201 (0x000000AB, 0);
          Some (res, store_get (params s0) 7, handled2, store_get (params s2) 7,
                handled4, params s4 = params s3, store_get (params s4) 7) })
     [\<lambda>p. False, \<lambda>p. True]
   = [Some (Inr 1, 0, True, 171, False, True, 171),
      Some (Inr 1, 0, True, 171, False, True, 171)]"
  by code_simp

end
